theory Spec2Isabelle
  imports Main
begin

section \<open>Strings\<close>

text \<open>
  A JavaScript string is modelled as a list of code units (\<^typ>\<open>string\<close>).  Case mapping
  is the ASCII one: \<open>toLowerCase\<close> sends \<open>A\<close>..\<open>Z\<close> to \<open>a\<close>..\<open>z\<close> and leaves every other
  code unit alone, which is what \<open>String.prototype.toLowerCase\<close> does on ASCII text.
\<close>

definition lower_char :: "char \<Rightarrow> char" where
  "lower_char c =
     (case map_of (zip ''ABCDEFGHIJKLMNOPQRSTUVWXYZ'' ''abcdefghijklmnopqrstuvwxyz'') c of
        Some d \<Rightarrow> d
      | None \<Rightarrow> c)"

definition toLowerCase :: "string \<Rightarrow> string" where
  "toLowerCase s = map lower_char s"

text \<open>\<open>s.startsWith(p)\<close> and \<open>s.endsWith(p)\<close>.\<close>

definition startsWith :: "string \<Rightarrow> string \<Rightarrow> bool" where
  "startsWith s p = (take (length p) s = p)"

definition endsWith :: "string \<Rightarrow> string \<Rightarrow> bool" where
  "endsWith s p = (length p \<le> length s \<and> drop (length s - length p) s = p)"

text \<open>
  \<open>s.indexOf(q, from)\<close>: the least position \<open>i \<ge> min(from, s.length)\<close> at which \<open>q\<close> occurs in
  \<open>s\<close>, \<open>None\<close> standing for \<open>-1\<close>.  The empty string occurs at every position up to and
  including \<open>s.length\<close>, so \<open>indexOf('', from)\<close> is \<open>min(from, s.length)\<close>.
  \<open>find_at q xs k\<close> scans the suffix \<open>xs\<close> that starts at position \<open>k\<close>.
\<close>

fun find_at :: "string \<Rightarrow> string \<Rightarrow> nat \<Rightarrow> nat option" where
  "find_at q [] k = (if q = [] then Some k else None)"
| "find_at q (x # xs) k =
     (if take (length q) (x # xs) = q then Some k else find_at q xs (Suc k))"

definition indexOf :: "string \<Rightarrow> string \<Rightarrow> nat \<Rightarrow> nat option" where
  "indexOf s q from = (let start = min from (length s) in find_at q (drop start s) start)"

text \<open>\<open>s.includes(q)\<close>.\<close>

definition str_includes :: "string \<Rightarrow> string \<Rightarrow> bool" where
  "str_includes s q = (indexOf s q 0 \<noteq> None)"

text \<open>\<open>parts.join(sep)\<close> and \<open>s.split(sep)\<close> for a one-character separator.\<close>

fun join :: "string \<Rightarrow> string list \<Rightarrow> string" where
  "join sep [] = []"
| "join sep [x] = x"
| "join sep (x # y # ys) = x @ sep @ join sep (y # ys)"

fun split :: "char \<Rightarrow> string \<Rightarrow> string list" where
  "split sep [] = [[]]"
| "split sep (c # cs) =
     (if c = sep then [] # split sep cs
      else (case split sep cs of
              p # ps \<Rightarrow> (c # p) # ps
            | [] \<Rightarrow> [[c]]))"

text \<open>\<open>xs.slice(a, b)\<close> for \<open>0 \<le> a\<close> and \<open>0 \<le> b\<close>.\<close>

definition slice :: "nat \<Rightarrow> nat \<Rightarrow> 'a list \<Rightarrow> 'a list" where
  "slice a b xs = take (b - a) (drop a xs)"


section \<open>Data model\<close>

text \<open>\<open>StandardMetadata\<close>, \<open>Standard\<close> and \<open>FilterOptions\<close> of \<open>types.ts\<close>, as the
  services use them.  An optional field of \<open>FilterOptions\<close> is an \<open>option\<close>.\<close>

record metadata =
  type :: string
  tier :: string
  process :: string
  tags :: "string list"
  status :: string
  version :: string
  author :: string
  created :: string
  updated :: string

record standard =
  metadata :: metadata
  content :: string
  path :: string

record filter_options =
  o_type :: "string option"
  o_tier :: "string option"
  o_process :: "string option"
  o_status :: "string option"
  o_tags :: "string list option"


section \<open>Index engine: type names and filter\<close>

text \<open>
  \<open>normalizeTypeName\<close>: the argument is a possibly undefined string; a falsy argument
  (undefined or empty) is returned as it is.
\<close>

definition normalizeTypeName :: "string option \<Rightarrow> string option" where
  "normalizeTypeName t =
     (case t of
        None \<Rightarrow> None
      | Some s \<Rightarrow>
          if s = [] then Some s
          else (let lower = toLowerCase s in
                if lower = ''standards'' then Some ''standard''
                else if lower = ''principles'' then Some ''principle''
                else if lower = ''practices'' then Some ''practice''
                else if lower = ''technical-stack'' then Some ''tech-stack''
                else Some lower))"

text \<open>JavaScript truthiness of an optional string and of an optional array.\<close>

definition truthy :: "string option \<Rightarrow> bool" where
  "truthy v = (case v of None \<Rightarrow> False | Some s \<Rightarrow> s \<noteq> [])"

text \<open>The callback of \<open>StandardsIndex.filter\<close>: one early \<open>return false\<close> per criterion.\<close>

definition filter_callback :: "filter_options \<Rightarrow> standard \<Rightarrow> bool" where
  "filter_callback options s =
     (if truthy (o_type options) \<and>
         normalizeTypeName (Some (type (metadata s))) \<noteq> normalizeTypeName (o_type options)
      then False
      else if truthy (o_tier options) \<and> Some (tier (metadata s)) \<noteq> o_tier options
      then False
      else if truthy (o_process options) \<and> Some (process (metadata s)) \<noteq> o_process options
      then False
      else if truthy (o_status options) \<and> Some (status (metadata s)) \<noteq> o_status options
      then False
      else (case o_tags options of
              None \<Rightarrow> True
            | Some ts \<Rightarrow>
                if length ts > 0
                then (if list_all (\<lambda>tag. tag \<in> set (tags (metadata s))) ts then True else False)
                else True))"

definition filter_standards :: "standard list \<Rightarrow> filter_options \<Rightarrow> standard list" where
  "filter_standards stds options = filter (filter_callback options) stds"

text \<open>
  The specification's reading of a match, for comparison with the callback, written from
  its words and not from the code's helpers.  Type names are compared in canonical form:
  lowercased, with each known legacy spelling replaced by its canonical singular one.
\<close>

definition legacy_type_spellings :: "(string \<times> string) list" where
  "legacy_type_spellings =
     [(''standards'', ''standard''), (''principles'', ''principle''),
      (''practices'', ''practice''), (''technical-stack'', ''tech-stack'')]"

definition canonical_type :: "string \<Rightarrow> string" where
  "canonical_type t =
     (case map_of legacy_type_spellings (toLowerCase t) of
        Some canonical \<Rightarrow> canonical
      | None \<Rightarrow> toLowerCase t)"

text \<open>
  The claim as it is worded: a criterion is present when it is supplied, whatever its
  value; every present criterion must match, the type in canonical form on both sides, the
  other three by equality, the tags as an all-of match.
\<close>

definition claimed_matches :: "filter_options \<Rightarrow> standard \<Rightarrow> bool" where
  "claimed_matches options s =
     ((case o_type options of
         None \<Rightarrow> True
       | Some v \<Rightarrow> canonical_type (type (metadata s)) = canonical_type v) \<and>
      (case o_tier options of None \<Rightarrow> True | Some v \<Rightarrow> tier (metadata s) = v) \<and>
      (case o_process options of None \<Rightarrow> True | Some v \<Rightarrow> process (metadata s) = v) \<and>
      (case o_status options of None \<Rightarrow> True | Some v \<Rightarrow> status (metadata s) = v) \<and>
      (case o_tags options of
         None \<Rightarrow> True
       | Some ts \<Rightarrow> list_all (\<lambda>tag. tag \<in> set (tags (metadata s))) ts))"

text \<open>
  The same with the one change the code needs: a criterion supplied as the empty string
  counts as absent.  (An empty list of tags constrains nothing under either reading.)
\<close>

definition spec_matches :: "filter_options \<Rightarrow> standard \<Rightarrow> bool" where
  "spec_matches options s =
     ((case o_type options of
         None \<Rightarrow> True
       | Some v \<Rightarrow> v = [] \<or> canonical_type (type (metadata s)) = canonical_type v) \<and>
      (case o_tier options of None \<Rightarrow> True | Some v \<Rightarrow> v = [] \<or> tier (metadata s) = v) \<and>
      (case o_process options of
         None \<Rightarrow> True
       | Some v \<Rightarrow> v = [] \<or> process (metadata s) = v) \<and>
      (case o_status options of
         None \<Rightarrow> True
       | Some v \<Rightarrow> v = [] \<or> status (metadata s) = v) \<and>
      (case o_tags options of
         None \<Rightarrow> True
       | Some ts \<Rightarrow> list_all (\<lambda>tag. tag \<in> set (tags (metadata s))) ts))"


section \<open>Path-shaped inputs\<close>

definition is_sep :: "char \<Rightarrow> bool" where
  "is_sep c = (c = CHR ''/'' \<or> c = CHR 0x5C)"

text \<open>
  The regular expression \<open>/^[/\\]?standards[/\\]/i\<close>, used by \<open>normalizeIndexPath\<close>,
  \<open>normalizeTargetPath\<close> and \<open>sanitizeFilename\<close>: an optional separator, the word
  \<open>standards\<close> in any letter case, a separator.  \<open>match_store_prefix p\<close> is the rest of \<open>p\<close>
  after the match, \<open>None\<close> when there is no match; \<open>strip_store_prefix\<close> is the
  \<open>replace(..., '')\<close>.
\<close>

definition standards_segment :: "string \<Rightarrow> string option" where
  "standards_segment p =
     (if toLowerCase (take 9 p) = ''standards'' \<and>
         (case drop 9 p of c # _ \<Rightarrow> is_sep c | [] \<Rightarrow> False)
      then Some (drop 10 p) else None)"

definition match_store_prefix :: "string \<Rightarrow> string option" where
  "match_store_prefix p =
     (case p of
        [] \<Rightarrow> None
      | c # r \<Rightarrow> if is_sep c then standards_segment r else standards_segment p)"

definition strip_store_prefix :: "string \<Rightarrow> string" where
  "strip_store_prefix p = (case match_store_prefix p of Some r \<Rightarrow> r | None \<Rightarrow> p)"

definition normalizeIndexPath :: "string option \<Rightarrow> string option" where
  "normalizeIndexPath p =
     (case p of
        None \<Rightarrow> None
      | Some s \<Rightarrow> if s = [] then Some s else Some (strip_store_prefix s))"

text \<open>
  \<open>s.replace(/^.*[/\\]/, '')\<close>: the dot does not match a line terminator, so the greedy
  \<open>.*\<close> stays on the first line and the match ends at the last separator of that line.
\<close>

definition is_line_terminator :: "char \<Rightarrow> bool" where
  "is_line_terminator c = (c = CHR 0x0A \<or> c = CHR 0x0D)"

definition strip_dirs :: "string \<Rightarrow> string" where
  "strip_dirs s =
     (let line = takeWhile (\<lambda>c. \<not> is_line_terminator c) s in
      if list_ex is_sep line
      then drop (length line - length (takeWhile (\<lambda>c. \<not> is_sep c) (rev line))) s
      else s)"

text \<open>\<open>s.replace(/\.md$/i, '')\<close>.\<close>

definition strip_md :: "string \<Rightarrow> string" where
  "strip_md s = (if endsWith (toLowerCase s) ''.md'' then take (length s - 3) s else s)"

text \<open>The base name both sides of \<open>findByPath\<close> are reduced to.\<close>

definition base_name :: "string \<Rightarrow> string" where
  "base_name s = toLowerCase (strip_md (strip_dirs s))"

definition findByPath :: "standard list \<Rightarrow> string \<Rightarrow> standard option" where
  "findByPath stds p =
     (case normalizeIndexPath (Some p) of
        None \<Rightarrow> None
      | Some normalized \<Rightarrow>
          if normalized = [] then None
          else (case find (\<lambda>s. path s = normalized) stds of
                  Some m \<Rightarrow> Some m
                | None \<Rightarrow>
                    (let normalizedBase = base_name normalized in
                     find (\<lambda>s. let sBase = base_name (path s) in
                                if sBase = normalizedBase then True
                                else if str_includes sBase normalizedBase then True
                                else False)
                          stds)))"

text \<open>
  The specification's three stages, each a search of the whole snapshot, for comparison
  with \<open>findByPath\<close>.
\<close>

definition spec_findByPath :: "standard list \<Rightarrow> string \<Rightarrow> standard option" where
  "spec_findByPath stds p =
     (case normalizeIndexPath (Some p) of
        None \<Rightarrow> None
      | Some normalized \<Rightarrow>
          if normalized = [] then None
          else (case find (\<lambda>s. path s = normalized) stds of
                  Some m \<Rightarrow> Some m
                | None \<Rightarrow>
                    (case find (\<lambda>s. base_name (path s) = base_name normalized) stds of
                       Some m \<Rightarrow> Some m
                     | None \<Rightarrow>
                         find (\<lambda>s. str_includes (base_name (path s)) (base_name normalized))
                              stds)))"


section \<open>Storage layer: file names\<close>

text \<open>
  Modelled from the spec: the constant \<open>MARKDOWN_EXTENSION\<close> of \<open>constants.ts\<close>, which is
  not among the sources; stored names have the form
  \<open>{type}-{tier}-{process}-{slug}-{status}.md\<close>.
\<close>

definition MARKDOWN_EXTENSION :: string where
  "MARKDOWN_EXTENSION = ''.md''"

text \<open>\<open>path.isAbsolute\<close> and \<open>path.basename\<close> of Node's POSIX \<open>path\<close> module: a path is
  absolute when it starts with a slash; the base name is the last segment, trailing
  slashes ignored.\<close>

definition path_isAbsolute :: "string \<Rightarrow> bool" where
  "path_isAbsolute p = (case p of [] \<Rightarrow> False | c # _ \<Rightarrow> c = CHR ''/'')"

definition path_basename :: "string \<Rightarrow> string" where
  "path_basename p =
     rev (takeWhile (\<lambda>c. c \<noteq> CHR ''/'') (dropWhile (\<lambda>c. c = CHR ''/'') (rev p)))"

text \<open>
  \<open>s.replace(/[C]+/g, '-')\<close> for a character class \<open>C\<close>: every maximal run of characters of
  the class becomes one hyphen.
\<close>

function replace_runs :: "(char \<Rightarrow> bool) \<Rightarrow> string \<Rightarrow> string" where
  "replace_runs C [] = []"
| "replace_runs C (c # cs) =
     (if C c then CHR ''-'' # replace_runs C (dropWhile C cs) else c # replace_runs C cs)"
  by pat_completeness auto
termination
  by (relation "measure (\<lambda>(C, s). length s)") (auto simp: length_dropWhile_le less_Suc_eq_le)

definition is_alnum :: "char \<Rightarrow> bool" where
  "is_alnum c = (c \<in> set ''abcdefghijklmnopqrstuvwxyz0123456789'')"

text \<open>\<open>s.replace(/^-|-$/g, '')\<close>: one leading and one trailing hyphen are removed.\<close>

definition trim_hyphen :: "string \<Rightarrow> string" where
  "trim_hyphen s =
     (let s1 = (case s of [] \<Rightarrow> [] | c # r \<Rightarrow> if c = CHR ''-'' then r else s) in
      if s1 \<noteq> [] \<and> last s1 = CHR ''-'' then butlast s1 else s1)"

text \<open>The kebab-case chain of \<open>sanitizeFilename\<close>.\<close>

definition kebab :: "string \<Rightarrow> string" where
  "kebab base =
     trim_hyphen
       (replace_runs (\<lambda>c. c = CHR ''-'')
          (replace_runs (\<lambda>c. \<not> is_alnum c) (toLowerCase base)))"

definition sanitizeFilename :: "string \<Rightarrow> string" where
  "sanitizeFilename filename =
     (let base = strip_store_prefix filename;
          base = path_basename base;
          base = (if endsWith (toLowerCase base) MARKDOWN_EXTENSION
                  then take (length base - length MARKDOWN_EXTENSION) base
                  else base);
          sanitized = kebab base
      in sanitized @ MARKDOWN_EXTENSION)"

definition generateDefaultFilename :: "metadata \<Rightarrow> string" where
  "generateDefaultFilename md =
     (case tags md of
        t # _ \<Rightarrow> sanitizeFilename t
      | [] \<Rightarrow> if tier md \<noteq> [] then sanitizeFilename (tier md)
              else sanitizeFilename (type md))"

definition generateFilePath :: "metadata \<Rightarrow> string option \<Rightarrow> string" where
  "generateFilePath md filename =
     (let sanitizedFilename = (if truthy filename then sanitizeFilename (the filename)
                               else generateDefaultFilename md);
          prefixParts = map toLowerCase (filter (\<lambda>p. p \<noteq> []) [type md, tier md, process md]);
          titleBase = (if endsWith sanitizedFilename MARKDOWN_EXTENSION
                       then take (length sanitizedFilename - length MARKDOWN_EXTENSION)
                              sanitizedFilename
                       else sanitizedFilename);
          prefix = join ''-'' prefixParts @ ''-'';
          suffix = ''-'' @ toLowerCase (status md);
          finalBase = toLowerCase titleBase;
          finalBase = (if startsWith finalBase prefix
                       then drop (length prefix) finalBase else finalBase);
          finalBase = (if endsWith finalBase suffix
                       then take (length finalBase - length suffix) finalBase else finalBase)
      in prefix @ finalBase @ suffix @ MARKDOWN_EXTENSION)"

text \<open>
  \<open>extractTitleBaseFromFilename\<close>, the local function of \<open>updateStandard\<close>.  Both layout
  probes sit under the guard \<open>parts.length >= 5\<close>; below it the code falls through to the
  fallback, and with three segments or fewer it returns the whole base name.
\<close>

definition extractTitleBaseFromFilename :: "string \<Rightarrow> metadata \<Rightarrow> string" where
  "extractTitleBaseFromFilename basename md =
     (let parts = split (CHR ''-'') basename;
          fallback = (if length parts > 3 then join ''-'' (drop 3 parts) else basename)
      in if length parts \<ge> 5
         then (let possibleStatus = parts ! 3;
                   lastPart = parts ! (length parts - 1)
               in if lastPart = status md
                  then join ''-'' (slice 3 (length parts - 1) parts)
                  else if possibleStatus = status md
                  then join ''-'' (drop 4 parts)
                  else fallback)
         else fallback)"

section \<open>Storage layer: files\<close>

text \<open>
  Errors are values.  \<open>ENOENT\<close> is the error code the file system raises for a missing
  file; \<open>StandardNotFound\<close>, \<open>FileReadError\<close> and \<open>FileWriteError\<close> are the messages of
  \<open>ERROR_MESSAGES\<close> that the storage layer wraps causes in; \<open>TargetExists\<close> and
  \<open>AlreadyExists\<close> are the two name-collision errors; \<open>Rejected\<close> is whatever the parser
  or the validator raise.
\<close>

datatype error =
    ENOENT
  | StandardNotFound string
  | FileReadError error
  | FileWriteError error
  | TargetExists string
  | AlreadyExists string
  | Rejected string

text \<open>
  The file system is a map from full paths to file contents.  Directories are not
  modelled, so \<open>fs.mkdir(..., {recursive: true})\<close> changes nothing.  \<open>fs.rename\<close> moves the
  content in one step and replaces a file at the target.
\<close>

type_synonym fs = "string \<rightharpoonup> string"

definition fs_access :: "fs \<Rightarrow> string \<Rightarrow> error + unit" where
  "fs_access files p = (case files p of None \<Rightarrow> Inl ENOENT | Some _ \<Rightarrow> Inr ())"

definition fs_readFile :: "fs \<Rightarrow> string \<Rightarrow> error + string" where
  "fs_readFile files p = (case files p of None \<Rightarrow> Inl ENOENT | Some c \<Rightarrow> Inr c)"

definition fs_rename :: "fs \<Rightarrow> string \<Rightarrow> string \<Rightarrow> error + fs" where
  "fs_rename files old new =
     (case files old of
        None \<Rightarrow> Inl ENOENT
      | Some c \<Rightarrow> Inr ((files(old := None))(new \<mapsto> c)))"

definition fs_writeFile :: "fs \<Rightarrow> string \<Rightarrow> string \<Rightarrow> fs" where
  "fs_writeFile files p c = files(p \<mapsto> c)"

text \<open>
  What the storage layer takes from modules that are not among the sources, as parameters:
  \<open>path_join\<close> is \<open>path.join(STANDARDS_DIR, \<cdot>)\<close> and \<open>path_relative\<close> is
  \<open>path.relative(STANDARDS_DIR, \<cdot>)\<close> (Node's \<open>path\<close> module applied to the constant
  \<open>STANDARDS_DIR\<close> of \<open>constants.ts\<close>); \<open>parseStandard\<close> and \<open>serializeStandard\<close> are the
  parser's; \<open>validateMetadata\<close> and \<open>generateISODate\<close> (the clock reading) are the
  validator's.
\<close>

record env =
  path_join :: "string \<Rightarrow> string"
  path_relative :: "string \<Rightarrow> string"
  parseStandard :: "string \<Rightarrow> string \<Rightarrow> error + standard"
  serializeStandard :: "standard \<Rightarrow> string"
  validateMetadata :: "metadata \<Rightarrow> error + metadata"
  generateISODate :: string

definition normalizeTargetPath :: "env \<Rightarrow> string \<Rightarrow> string" where
  "normalizeTargetPath e p =
     (if p = [] then p
      else if path_isAbsolute p then path_relative e p
      else strip_store_prefix p)"

definition resolve :: "env \<Rightarrow> string \<Rightarrow> string" where
  \<comment> \<open>\<open>path.isAbsolute(normalized) ? normalized : path.join(STANDARDS_DIR, normalized)\<close>\<close>
  "resolve e normalized = (if path_isAbsolute normalized then normalized else path_join e normalized)"

text \<open>\<open>readStandard\<close>: the \<open>catch\<close> turns \<open>ENOENT\<close> into \<open>StandardNotFound\<close> and wraps every
  other cause, a parser error included, in \<open>FileReadError\<close>.\<close>

definition read_catch :: "string \<Rightarrow> error \<Rightarrow> error" where
  "read_catch filePath err = (if err = ENOENT then StandardNotFound filePath else FileReadError err)"

definition readStandard :: "env \<Rightarrow> fs \<Rightarrow> string \<Rightarrow> error + standard" where
  "readStandard e files filePath =
     (let normalized = normalizeTargetPath e filePath;
          fullPath = resolve e normalized
      in case fs_readFile files fullPath of
           Inl err \<Rightarrow> Inl (read_catch filePath err)
         | Inr raw \<Rightarrow>
             (let relativePath = path_relative e fullPath
              in case parseStandard e raw relativePath of
                   Inl err \<Rightarrow> Inl (read_catch filePath err)
                 | Inr s \<Rightarrow> Inr s))"

text \<open>\<open>writeStandard\<close> returns the relative path written and the new file system.\<close>

definition writeStandard :: "env \<Rightarrow> fs \<Rightarrow> standard \<Rightarrow> string option \<Rightarrow> string \<times> fs" where
  "writeStandard e files s targetPath =
     (let filePath = normalizeTargetPath e (if truthy targetPath then the targetPath else path s);
          fullPath = resolve e filePath;
          raw = serializeStandard e s
      in (path_relative e fullPath, fs_writeFile files fullPath raw))"

text \<open>\<open>Partial<StandardMetadata>\<close> and the \<open>updates\<close> argument of \<open>updateStandard\<close>.\<close>

record metadata_patch =
  p_type :: "string option"
  p_tier :: "string option"
  p_process :: "string option"
  p_tags :: "string list option"
  p_status :: "string option"
  p_version :: "string option"
  p_author :: "string option"
  p_created :: "string option"
  p_updated :: "string option"

record updates =
  u_content :: "string option"
  u_metadata :: "metadata_patch option"

definition or_else :: "'a option \<Rightarrow> 'a \<Rightarrow> 'a" where
  "or_else v d = (case v of None \<Rightarrow> d | Some x \<Rightarrow> x)"

definition merge_metadata :: "metadata \<Rightarrow> metadata_patch \<Rightarrow> string \<Rightarrow> metadata" where
  \<comment> \<open>\<open>{ ...existing.metadata, ...updates.metadata, updated: generateISODate() }\<close>\<close>
  "merge_metadata existing patch now =
     \<lparr>type = or_else (p_type patch) (type existing),
      tier = or_else (p_tier patch) (tier existing),
      process = or_else (p_process patch) (process existing),
      tags = or_else (p_tags patch) (tags existing),
      status = or_else (p_status patch) (status existing),
      version = or_else (p_version patch) (version existing),
      author = or_else (p_author patch) (author existing),
      created = or_else (p_created patch) (created existing),
      updated = now\<rparr>"

text \<open>\<open>s.replace(/\.[^.]+$/, '')\<close>: the last dot and what follows it, when something
  follows it.\<close>

definition strip_ext :: "string \<Rightarrow> string" where
  "strip_ext s =
     (let ext = takeWhile (\<lambda>c. c \<noteq> CHR ''.'') (rev s) in
      if length ext < length s \<and> ext \<noteq> [] then take (length s - length ext - 1) s else s)"

text \<open>
  \<open>updateStandard\<close> in two parts.  \<open>update_plan\<close> is the part before the first change to the
  file system: read, merge, validate, derive the new name; it yields the local values
  \<open>oldFullPath\<close>, \<open>newFullPath\<close>, \<open>newRelativePath\<close> and \<open>updated\<close>.  \<open>update_commit\<close> is the
  \<open>if (oldFullPath !== newFullPath)\<close> statement.  The second component of the result is the
  history of the file system: the state before the call and the state after each call
  that changes it, in order.
\<close>

record plan =
  oldFullPath :: string
  newFullPath :: string
  newRelativePath :: string
  updated_standard :: standard

definition update_plan :: "env \<Rightarrow> fs \<Rightarrow> string \<Rightarrow> updates \<Rightarrow> error + plan" where
  "update_plan e files filePath upd =
     (case readStandard e files filePath of
        Inl err \<Rightarrow> Inl err
      | Inr existing \<Rightarrow>
          (let newContent = or_else (u_content upd) (content existing);
               newMetadata = (case u_metadata upd of
                                Some patch \<Rightarrow> merge_metadata (metadata existing) patch (generateISODate e)
                              | None \<Rightarrow> metadata existing)
           in case validateMetadata e newMetadata of
                Inl err \<Rightarrow> Inl err
              | Inr validatedNewMetadata \<Rightarrow>
                  (let existingBasename = strip_ext (path_basename (path existing));
                       titleBase = extractTitleBaseFromFilename existingBasename (metadata existing);
                       newFilename = generateFilePath validatedNewMetadata (Some titleBase);
                       newRelative = normalizeTargetPath e newFilename;
                       oldRelative = normalizeTargetPath e (path existing);
                       oldFull = path_join e oldRelative;
                       newFull = path_join e newRelative
                   in Inr \<lparr>oldFullPath = oldFull, newFullPath = newFull,
                           newRelativePath = newRelative,
                           updated_standard = \<lparr>metadata = validatedNewMetadata,
                                               content = newContent,
                                               path = path_relative e newFull\<rparr>\<rparr>)))"

definition update_commit :: "env \<Rightarrow> fs \<Rightarrow> plan \<Rightarrow> (error + standard) \<times> fs list" where
  "update_commit e files pl =
     (if oldFullPath pl \<noteq> newFullPath pl
      then (case fs_access files (newFullPath pl) of
              Inr _ \<Rightarrow> (Inl (TargetExists (newRelativePath pl)), [files])
            | Inl err \<Rightarrow>
                if err \<noteq> ENOENT then (Inl err, [files])
                else (case fs_rename files (oldFullPath pl) (newFullPath pl) of
                        Inl err \<Rightarrow> (Inl err, [files])
                      | Inr renamed \<Rightarrow>
                          (let contentToWrite = serializeStandard e (updated_standard pl);
                               rewritten = fs_writeFile renamed (newFullPath pl) contentToWrite
                           in (Inr (updated_standard pl), [files, renamed, rewritten]))))
      else (Inr (updated_standard pl),
            [files, snd (writeStandard e files (updated_standard pl) None)]))"

definition updateStandard :: "env \<Rightarrow> fs \<Rightarrow> string \<Rightarrow> updates \<Rightarrow> (error + standard) \<times> fs list" where
  "updateStandard e files filePath upd =
     (case update_plan e files filePath upd of
        Inl err \<Rightarrow> (Inl err, [files])
      | Inr pl \<Rightarrow> update_commit e files pl)"

text \<open>
  \<open>listAllStandardFiles\<close>: \<open>names\<close> is what \<open>glob('*.md', {cwd: STANDARDS_DIR, nodir: true})\<close>
  returned.  \<open>readAllStandards\<close>: the loop pushes every standard that \<open>readStandard\<close>
  returns and, in the \<open>catch\<close>, logs the file and the error and continues; the log is the
  second component.
\<close>

definition listAllStandardFiles :: "env \<Rightarrow> string list \<Rightarrow> string list" where
  "listAllStandardFiles e names = map (\<lambda>file. path_relative e (path_join e file)) names"

fun readAll_loop ::
  "env \<Rightarrow> fs \<Rightarrow> string list \<Rightarrow> standard list \<Rightarrow> (string \<times> error) list
     \<Rightarrow> standard list \<times> (string \<times> error) list" where
  "readAll_loop e files [] stds log = (stds, log)"
| "readAll_loop e files (file # rest) stds log =
     (case readStandard e files file of
        Inr s \<Rightarrow> readAll_loop e files rest (stds @ [s]) log
      | Inl err \<Rightarrow> readAll_loop e files rest stds (log @ [(file, err)]))"

definition readAllStandards ::
  "env \<Rightarrow> fs \<Rightarrow> string list \<Rightarrow> standard list \<times> (string \<times> error) list" where
  "readAllStandards e files names = readAll_loop e files (listAllStandardFiles e names) [] []"


section \<open>Index engine: state and search\<close>

record index =
  standards :: "standard list"
  lastRefresh :: "string option"

definition empty_index :: index where
  "empty_index = \<lparr>standards = [], lastRefresh = None\<rparr>"

text \<open>\<open>refresh\<close> has no failure branch: it returns the new index (and the log of the bulk
  read); \<open>now\<close> is the reading of \<open>new Date()\<close>.\<close>

definition refresh ::
  "env \<Rightarrow> fs \<Rightarrow> string list \<Rightarrow> string \<Rightarrow> index \<Rightarrow> index \<times> (string \<times> error) list" where
  "refresh e files names now idx =
     (let (stds, log) = readAllStandards e files names
      in (idx\<lparr>standards := stds, lastRefresh := Some now\<rparr>, log))"

definition getCount :: "index \<Rightarrow> nat" where
  "getCount idx = length (standards idx)"

record search_match =
  contextText :: string
  startIndex :: nat
  endIndex :: nat

record search_result =
  standard :: standard
  matches :: "search_match list"
  score :: nat

text \<open>
  The \<open>while (index !== -1)\<close> loop of \<open>search\<close>.  It need not terminate, so it is a partial
  function: \<open>None\<close> is a loop that never ends.  \<open>ctx text i\<close> stands for
  \<open>extractContext(text, i, SEARCH_CONTEXT_LENGTH)\<close>, the parser's function applied to the
  constant of \<open>constants.ts\<close>.
\<close>

partial_function (option) scan ::
  "(string \<Rightarrow> nat \<Rightarrow> string) \<Rightarrow> string \<Rightarrow> string \<Rightarrow> string \<Rightarrow> string \<Rightarrow> nat option
     \<Rightarrow> search_match list \<Rightarrow> nat \<Rightarrow> (search_match list \<times> nat) option" where
  "scan ctx text contentLower query queryLower index ms sc =
     (case index of
        None \<Rightarrow> Some (ms, sc)
      | Some i \<Rightarrow>
          scan ctx text contentLower query queryLower
            (indexOf contentLower queryLower (i + 1))
            (ms @ [\<lparr>contextText = ctx text i, startIndex = i, endIndex = i + length query\<rparr>])
            (sc + 1))"

text \<open>The body of the \<open>for\<close> loop for one standard: the results it pushes (none or one).\<close>

definition metadataText :: "standard \<Rightarrow> string" where
  "metadataText s =
     toLowerCase (join '' '' ([type (metadata s), tier (metadata s), process (metadata s)]
                              @ tags (metadata s) @ [author (metadata s)]))"

definition search_step ::
  "(string \<Rightarrow> nat \<Rightarrow> string) \<Rightarrow> string \<Rightarrow> standard \<Rightarrow> search_result list option" where
  "search_step ctx query s =
     (let queryLower = toLowerCase query;
          contentLower = toLowerCase (content s)
      in case scan ctx (content s) contentLower query queryLower
                (indexOf contentLower queryLower 0) [] 0 of
           None \<Rightarrow> None
         | Some (ms, sc) \<Rightarrow>
             (let sc = (if str_includes (metadataText s) queryLower then sc + 2 else sc);
                  sc = (if str_includes (toLowerCase (path s)) queryLower then sc + 1 else sc)
              in Some (if length ms > 0 \<or> sc > 0
                       then [\<lparr>standard = s, matches = slice 0 3 ms, score = sc\<rparr>]
                       else [])))"

fun search_loop ::
  "(string \<Rightarrow> nat \<Rightarrow> string) \<Rightarrow> string \<Rightarrow> standard list \<Rightarrow> search_result list
     \<Rightarrow> search_result list option" where
  "search_loop ctx query [] results = Some results"
| "search_loop ctx query (s # rest) results =
     (case search_step ctx query s of
        None \<Rightarrow> None
      | Some pushed \<Rightarrow> search_loop ctx query rest (results @ pushed))"

text \<open>
  \<open>results.sort((a, b) => b.score - a.score)\<close>: \<open>Array.prototype.sort\<close> is stable, so the
  result is the stable sort by descending score.  \<open>xs.slice(0, limit)\<close> counts a negative
  \<open>limit\<close> from the end.  An omitted \<open>limit\<close> is 10.
\<close>

definition sort_by_score :: "search_result list \<Rightarrow> search_result list" where
  "sort_by_score results = sort_key (\<lambda>r. - int (score r)) results"

definition slice_to :: "int \<Rightarrow> 'a list \<Rightarrow> 'a list" where
  "slice_to limit xs =
     (if limit < 0 then take (nat (int (length xs) + limit)) xs else take (nat limit) xs)"

definition search ::
  "(string \<Rightarrow> nat \<Rightarrow> string) \<Rightarrow> standard list \<Rightarrow> string \<Rightarrow> filter_options \<Rightarrow> int option
     \<Rightarrow> search_result list option" where
  "search ctx stds query options limit =
     (case search_loop ctx query (filter_standards stds options) [] of
        None \<Rightarrow> None
      | Some results \<Rightarrow> Some (slice_to (or_else limit 10) (sort_by_score results)))"

section \<open>Specification-side definitions\<close>

text \<open>
  Modelled from the spec: the validator (\<open>validator.ts\<close>) and the parser (\<open>parser.ts\<close>) are
  not among the sources.  \<open>valid_metadata\<close> is the validator's schema as the specification
  gives it: each enum field holds one of its allowed (canonical, singular) values, and the
  tags are a non-empty list of non-empty strings.
\<close>

definition valid_metadata :: "metadata \<Rightarrow> bool" where
  "valid_metadata md =
     (type md \<in> set [''principle'', ''standard'', ''practice'', ''tech-stack'', ''process''] \<and>
      tier md \<in> set [''frontend'', ''backend'', ''database'', ''infrastructure'', ''security''] \<and>
      process md \<in> set [''development'', ''testing'', ''delivery'', ''operations''] \<and>
      status md \<in> set [''active'', ''draft'', ''deprecated''] \<and>
      tags md \<noteq> [] \<and> [] \<notin> set (tags md))"

text \<open>
  The specification's scoring, for comparison with \<open>search\<close>.  The query occurs in a text
  at position \<open>i\<close> when the text continues with the query from there; the occurrences are
  all such starting positions, overlapping ones included.  The score is one per occurrence
  in the lowercased body, two flat if the query occurs in the metadata text, one flat if it
  occurs in the lowercased path; a result carries the first three snippets; documents of
  score zero are left out.
\<close>

definition occurs_at :: "string \<Rightarrow> string \<Rightarrow> nat \<Rightarrow> bool" where
  "occurs_at s q i = (i + length q \<le> length s \<and> take (length q) (drop i s) = q)"

definition occurrences :: "string \<Rightarrow> string \<Rightarrow> nat list" where
  "occurrences s q = [i \<leftarrow> [0..<Suc (length s)]. occurs_at s q i]"

definition spec_score :: "string \<Rightarrow> standard \<Rightarrow> nat" where
  "spec_score query s =
     length (occurrences (toLowerCase (content s)) (toLowerCase query))
     + (if occurrences (metadataText s) (toLowerCase query) \<noteq> [] then 2 else 0)
     + (if occurrences (toLowerCase (path s)) (toLowerCase query) \<noteq> [] then 1 else 0)"

definition snippet :: "(string \<Rightarrow> nat \<Rightarrow> string) \<Rightarrow> string \<Rightarrow> string \<Rightarrow> nat \<Rightarrow> search_match" where
  "snippet ctx query text i =
     \<lparr>contextText = ctx text i, startIndex = i, endIndex = i + length query\<rparr>"

definition spec_result :: "(string \<Rightarrow> nat \<Rightarrow> string) \<Rightarrow> string \<Rightarrow> standard \<Rightarrow> search_result" where
  "spec_result ctx query s =
     \<lparr>standard = s,
      matches = take 3 (map (snippet ctx query (content s))
                          (occurrences (toLowerCase (content s)) (toLowerCase query))),
      score = spec_score query s\<rparr>"

definition spec_scored ::
  "(string \<Rightarrow> nat \<Rightarrow> string) \<Rightarrow> standard list \<Rightarrow> string \<Rightarrow> filter_options \<Rightarrow> search_result list" where
  "spec_scored ctx stds query options =
     map (spec_result ctx query)
       [s \<leftarrow> filter_standards stds options. spec_score query s > 0]"

text \<open>The occurrences from position \<open>k\<close> on.\<close>

definition pos_from :: "string \<Rightarrow> string \<Rightarrow> nat \<Rightarrow> nat list" where
  "pos_from s q k = [i \<leftarrow> [k..<Suc (length s)]. occurs_at s q i]"

text \<open>
  Kebab-case strings: only lowercase letters, digits and hyphens, no two hyphens in a row
  (\<open>hyphenated\<close>), and, being non-empty, no hyphen at either end (\<open>kebab_form\<close>).
\<close>

definition no_double_hyphen :: "char \<Rightarrow> char \<Rightarrow> bool" where
  "no_double_hyphen a b = (\<not> (a = CHR ''-'' \<and> b = CHR ''-''))"

definition hyphenated :: "string \<Rightarrow> bool" where
  "hyphenated s = (list_all (\<lambda>c. is_alnum c \<or> c = CHR ''-'') s \<and> successively no_double_hyphen s)"

definition kebab_form :: "string \<Rightarrow> bool" where
  "kebab_form s = (s \<noteq> [] \<and> hyphenated s \<and> hd s \<noteq> CHR ''-'' \<and> last s \<noteq> CHR ''-'')"

text \<open>The prefix and the suffix of a canonical name, for valid metadata.\<close>

definition name_prefix :: "metadata \<Rightarrow> string" where
  "name_prefix md = type md @ ''-'' @ tier md @ ''-'' @ process md @ ''-''"

definition name_suffix :: "metadata \<Rightarrow> string" where
  "name_suffix md = ''-'' @ status md"


section \<open>Sample data\<close>

text \<open>A metadata value and a way to make documents from it, for the concrete instances
  that follow the theorems.\<close>

definition sample_metadata :: metadata where
  "sample_metadata =
     \<lparr>type = ''standard'', tier = ''backend'', process = ''development'',
      tags = [''security'', ''api''], status = ''active'', version = ''1.0.0'',
      author = ''team'', created = ''2024-01-01'', updated = ''2024-01-01''\<rparr>"

definition sample_standard :: "string \<Rightarrow> string list \<Rightarrow> string \<Rightarrow> standard" where
  "sample_standard p ts body = \<lparr>metadata = sample_metadata\<lparr>tags := ts\<rparr>, content = body, path = p\<rparr>"

definition sample_document :: "string \<Rightarrow> metadata \<Rightarrow> standard" where
  "sample_document p md = \<lparr>metadata = md, content = [], path = p\<rparr>"

definition no_options :: filter_options where
  "no_options = \<lparr>o_type = None, o_tier = None, o_process = None, o_status = None, o_tags = None\<rparr>"

text \<open>
  A small environment for the concrete instances: the store is the directory \<open>/kb\<close>; a
  well-formed file starts with \<open>---\<close>, which the sample parser takes off and the sample
  serializer puts back.
\<close>

definition sample_env :: env where
  "sample_env =
     \<lparr>path_join = (\<lambda>p. ''/kb/'' @ p),
      path_relative = (\<lambda>p. drop 4 p),
      parseStandard = (\<lambda>raw p. if startsWith raw ''---''
                                then Inr (sample_standard p [''api''] (drop 3 raw))
                                else Inl (Rejected ''Invalid frontmatter'')),
      serializeStandard = (\<lambda>s. ''---'' @ content s),
      validateMetadata = (\<lambda>md. if valid_metadata md then Inr md
                                 else Inl (Rejected ''Invalid metadata'')),
      generateISODate = ''2024-06-01''\<rparr>"

text \<open>A stored document, an update that deprecates it, and the name it is renamed to.\<close>

definition sample_name :: string where
  "sample_name = ''standard-backend-development-spring-boot-active.md''"

definition sample_renamed :: string where
  "sample_renamed = ''standard-backend-development-spring-boot-deprecated.md''"

definition no_patch :: metadata_patch where
  "no_patch = \<lparr>p_type = None, p_tier = None, p_process = None, p_tags = None, p_status = None,
               p_version = None, p_author = None, p_created = None, p_updated = None\<rparr>"

definition deprecate :: updates where
  "deprecate = \<lparr>u_content = Some ''new body'',
                 u_metadata = Some (no_patch\<lparr>p_status := Some ''deprecated''\<rparr>)\<rparr>"

definition sample_files :: fs where
  "sample_files = [''/kb/'' @ sample_name \<mapsto> ''---old body'']"

text \<open>A context function for the concrete instances: no snippet text.\<close>

definition no_context :: "string \<Rightarrow> nat \<Rightarrow> string" where
  "no_context text i = []"


section \<open>Filter: results\<close>

lemma normalizeTypeName_canonical: "normalizeTypeName (Some a) = Some (canonical_type a)"
proof (cases "a = []")
  case True
  then show ?thesis
    by (simp add: normalizeTypeName_def canonical_type_def legacy_type_spellings_def
          toLowerCase_def)
next
  case False
  then show ?thesis
    by (simp add: normalizeTypeName_def canonical_type_def legacy_type_spellings_def Let_def)
qed

lemma type_criterion:
  "(truthy c \<and> normalizeTypeName (Some t) \<noteq> normalizeTypeName c) =
     (\<not> (case c of None \<Rightarrow> True | Some v \<Rightarrow> v = [] \<or> canonical_type t = canonical_type v))"
  by (cases c) (auto simp: truthy_def normalizeTypeName_canonical)

lemma scalar_criterion:
  "(truthy c \<and> Some x \<noteq> c) = (\<not> (case c of None \<Rightarrow> True | Some v \<Rightarrow> v = [] \<or> x = v))"
  by (cases c) (auto simp: truthy_def)

lemma tags_criterion:
  "(case c of
      None \<Rightarrow> True
    | Some ts \<Rightarrow> if length ts > 0 then (if list_all P ts then True else False) else True) =
   (case c of None \<Rightarrow> True | Some ts \<Rightarrow> list_all P ts)"
  by (cases c) auto

lemma cascade:
  "(if \<not> a then False else if \<not> b then False else if \<not> c then False
    else if \<not> d then False else e) = (a \<and> b \<and> c \<and> d \<and> e)"
  by simp

lemma filter_callback_spec: "filter_callback options s = spec_matches options s"
  unfolding filter_callback_def spec_matches_def type_criterion scalar_criterion tags_criterion
  by (rule cascade)

text \<open>
  Claim C6, as the code has it.  For every snapshot and criteria, \<open>filter\<close> returns exactly
  the documents for which every criterion supplied with a non-empty value matches: the type
  in canonical form on both sides (lowercased, legacy plural spellings made singular), the
  tier, process and status by equality, the tags as an all-of match; an absent criterion,
  and one supplied as the empty string or the empty list, constrains nothing.  The result
  is the snapshot with the non-matching documents deleted, in snapshot order, nothing
  reordered or duplicated.
\<close>

theorem filter_exact_in_snapshot_order:
  "filter_standards stds options = [s \<leftarrow> stds. spec_matches options s]"
  by (simp add: filter_standards_def filter_callback_spec [abs_def])

text \<open>
  One document passes every criterion, one more differs from it only in having a third
  tag, and each of the others fails exactly one criterion: the type, the tier, the process,
  the status, the tags.
\<close>

theorem filter_exact_in_snapshot_order_witness:
  "filter_standards
     [sample_document ''a.md'' sample_metadata,
      sample_document ''b.md'' (sample_metadata\<lparr>type := ''principle''\<rparr>),
      sample_document ''c.md'' (sample_metadata\<lparr>tier := ''frontend''\<rparr>),
      sample_document ''d.md'' (sample_metadata\<lparr>process := ''testing''\<rparr>),
      sample_document ''e.md'' (sample_metadata\<lparr>status := ''draft''\<rparr>),
      sample_document ''f.md'' (sample_metadata\<lparr>tags := [''security'']\<rparr>),
      sample_document ''g.md'' (sample_metadata\<lparr>tags := [''api'', ''rest'', ''security'']\<rparr>)]
     \<lparr>o_type = Some ''Standards'', o_tier = Some ''backend'',
      o_process = Some ''development'', o_status = Some ''active'',
      o_tags = Some [''security'', ''api'']\<rparr>
   = [sample_document ''a.md'' sample_metadata,
      sample_document ''g.md'' (sample_metadata\<lparr>tags := [''api'', ''rest'', ''security'']\<rparr>)]"
  by (simp add: filter_exact_in_snapshot_order spec_matches_def canonical_type_def
        legacy_type_spellings_def sample_document_def sample_metadata_def toLowerCase_def
        lower_char_def)

text \<open>
  The claim as worded fails on a criterion supplied as the empty string: it is present, no
  document has the empty tier, and yet the code, which tests the criterion for truthiness
  before comparing, returns the document.
\<close>

theorem filter_empty_criterion_counterexample:
  "filter_standards [sample_document ''a.md'' sample_metadata] (no_options\<lparr>o_tier := Some []\<rparr>)
     = [sample_document ''a.md'' sample_metadata] \<and>
   [s \<leftarrow> [sample_document ''a.md'' sample_metadata].
      claimed_matches (no_options\<lparr>o_tier := Some []\<rparr>) s] = []"
  by (simp add: filter_standards_def filter_callback_def truthy_def claimed_matches_def
        no_options_def sample_document_def sample_metadata_def)


lemma length_toLowerCase: "length (toLowerCase s) = length s"
  by (simp add: toLowerCase_def)






section \<open>Bulk read and refresh\<close>

lemma readAll_loop_eq:
  "readAll_loop e files fs stds log =
     (stds @ List.map_filter (\<lambda>file. case readStandard e files file of
                                         Inr s \<Rightarrow> Some s | Inl _ \<Rightarrow> None) fs,
      log @ List.map_filter (\<lambda>file. case readStandard e files file of
                                        Inr _ \<Rightarrow> None | Inl err \<Rightarrow> Some (file, err)) fs)"
proof (induction fs arbitrary: stds log)
  case Nil
  show ?case by simp
next
  case (Cons f rest)
  show ?case
  proof (cases "readStandard e files f")
    case (Inl err)
    then show ?thesis by (simp add: Cons.IH)
  next
    case (Inr s)
    then show ?thesis by (simp add: Cons.IH)
  qed
qed

lemma length_map_filter_conv:
  "length (List.map_filter f xs) = length [x \<leftarrow> xs. f x \<noteq> None]"
  by (simp add: map_filter_def)

text \<open>
  Claim C8.  \<open>readAll\<close> returns the documents of exactly those enumerated files that
  \<open>readStandard\<close> can read and parse, in enumeration order; each failing file is logged and
  skipped; \<open>refresh\<close> always completes and installs that list, so the snapshot's count is
  the number of readable files: two for a store of two well-formed files and a malformed
  one.
\<close>

theorem readAll_skips_unreadable:
  "fst (readAllStandards e files names) =
     List.map_filter (\<lambda>file. case readStandard e files file of
                                 Inr s \<Rightarrow> Some s | Inl _ \<Rightarrow> None)
       (listAllStandardFiles e names) \<and>
   map fst (snd (readAllStandards e files names)) =
     [file \<leftarrow> listAllStandardFiles e names. isl (readStandard e files file)] \<and>
   standards (fst (refresh e files names now idx)) = fst (readAllStandards e files names) \<and>
   snd (refresh e files names now idx) = snd (readAllStandards e files names) \<and>
   getCount (fst (refresh e files names now idx)) =
     length [file \<leftarrow> listAllStandardFiles e names. \<not> isl (readStandard e files file)]"
proof -
  let ?fs = "listAllStandardFiles e names"
  have 1: "fst (readAllStandards e files names) =
     List.map_filter (\<lambda>file. case readStandard e files file of
                                 Inr s \<Rightarrow> Some s | Inl _ \<Rightarrow> None) ?fs"
    by (simp add: readAllStandards_def readAll_loop_eq)
  have "map fst (List.map_filter (\<lambda>file. case readStandard e files file of
                                        Inr _ \<Rightarrow> None | Inl err \<Rightarrow> Some (file, err)) fs)
        = [file \<leftarrow> fs. isl (readStandard e files file)]" for fs
    by (induction fs) (auto split: sum.splits)
  then have 2: "map fst (snd (readAllStandards e files names)) =
     [file \<leftarrow> ?fs. isl (readStandard e files file)]"
    by (simp add: readAllStandards_def readAll_loop_eq)
  have 3: "standards (fst (refresh e files names now idx)) = fst (readAllStandards e files names)"
    and 4: "snd (refresh e files names now idx) = snd (readAllStandards e files names)"
    by (simp_all add: refresh_def split: prod.splits)
  have "length (List.map_filter (\<lambda>file. case readStandard e files file of
                                 Inr s \<Rightarrow> Some s | Inl _ \<Rightarrow> None) fs)
        = length [file \<leftarrow> fs. \<not> isl (readStandard e files file)]" for fs
    by (induction fs) (auto split: sum.splits)
  then have 5: "getCount (fst (refresh e files names now idx)) =
     length [file \<leftarrow> ?fs. \<not> isl (readStandard e files file)]"
    by (simp add: getCount_def 3 1)
  from 1 2 3 4 5 show ?thesis by blast
qed

theorem readAll_skips_unreadable_witness:
  "getCount (fst (refresh sample_env
                    [''/kb/a.md'' \<mapsto> ''---alpha'', ''/kb/b.md'' \<mapsto> ''broken'',
                     ''/kb/c.md'' \<mapsto> ''---gamma'']
                    [''a.md'', ''b.md'', ''c.md''] ''2024-06-02'' empty_index)) = 2"
  by (simp add: readAll_skips_unreadable listAllStandardFiles_def sample_env_def
        readStandard_def normalizeTargetPath_def path_isAbsolute_def resolve_def
        strip_store_prefix_def match_store_prefix_def standards_segment_def is_sep_def
        fs_readFile_def startsWith_def toLowerCase_def lower_char_def)

section \<open>Slug recovery\<close>

lemma split_not_Nil: "split sep s \<noteq> []"
  by (induction s) (auto split: list.splits)

lemma join_Cons: "ys \<noteq> [] \<Longrightarrow> join sep (x # ys) = x @ sep @ join sep ys"
  by (cases ys) auto

lemma join_append:
  "xs \<noteq> [] \<Longrightarrow> ys \<noteq> [] \<Longrightarrow> join sep (xs @ ys) = join sep xs @ sep @ join sep ys"
proof (induction xs)
  case Nil
  then show ?case by simp
next
  case (Cons x xs)
  show ?case
  proof (cases "xs = []")
    case True
    with Cons.prems show ?thesis by (simp add: join_Cons)
  next
    case False
    with Cons show ?thesis by (simp add: join_Cons)
  qed
qed

lemma join_split: "join [sep] (split sep s) = s"
proof (induction s)
  case Nil
  show ?case by simp
next
  case (Cons c cs)
  show ?case
  proof (cases "c = sep")
    case True
    then show ?thesis
      using Cons split_not_Nil [of sep cs] by (simp add: join_Cons)
  next
    case False
    obtain p ps where ps: "split sep cs = p # ps"
      using split_not_Nil [of sep cs] by (cases "split sep cs") auto
    show ?thesis
    proof (cases ps)
      case Nil
      with False ps Cons show ?thesis by simp
    next
      case (Cons q qs)
      with False ps Cons.IH show ?thesis by simp
    qed
  qed
qed

lemma nth_last_conv: "xs \<noteq> [] \<Longrightarrow> xs ! (length xs - 1) = last xs"
  by (simp add: last_conv_nth)

lemma extract_new_layout:
  assumes "5 \<le> length (split (CHR ''-'') b)" and "last (split (CHR ''-'') b) = status md"
  shows "extractTitleBaseFromFilename b md = join ''-'' (butlast (drop 3 (split (CHR ''-'') b)))"
proof -
  let ?parts = "split (CHR ''-'') b"
  have "?parts ! (length ?parts - 1) = last ?parts"
    by (rule nth_last_conv) (rule split_not_Nil)
  moreover have "slice 3 (length ?parts - 1) ?parts = butlast (drop 3 ?parts)"
    by (simp add: slice_def butlast_conv_take drop_take)
  ultimately show ?thesis
    using assms by (simp add: extractTitleBaseFromFilename_def Let_def)
qed

lemma extract_old_layout:
  assumes "5 \<le> length (split (CHR ''-'') b)" and "last (split (CHR ''-'') b) \<noteq> status md"
    and "split (CHR ''-'') b ! 3 = status md"
  shows "extractTitleBaseFromFilename b md = join ''-'' (drop 4 (split (CHR ''-'') b))"
proof -
  let ?parts = "split (CHR ''-'') b"
  have "?parts ! (length ?parts - 1) = last ?parts"
    by (rule nth_last_conv) (rule split_not_Nil)
  then show ?thesis
    using assms by (simp add: extractTitleBaseFromFilename_def Let_def)
qed

lemma extract_fallback:
  assumes "length (split (CHR ''-'') b) = 4 \<or>
           (5 \<le> length (split (CHR ''-'') b) \<and> last (split (CHR ''-'') b) \<noteq> status md \<and>
            split (CHR ''-'') b ! 3 \<noteq> status md)"
  shows "extractTitleBaseFromFilename b md = join ''-'' (drop 3 (split (CHR ''-'') b))"
proof -
  let ?parts = "split (CHR ''-'') b"
  have "?parts ! (length ?parts - 1) = last ?parts"
    by (rule nth_last_conv) (rule split_not_Nil)
  then show ?thesis
    using assms by (auto simp: extractTitleBaseFromFilename_def Let_def)
qed

lemma extract_short:
  assumes "length (split (CHR ''-'') b) \<le> 3"
  shows "extractTitleBaseFromFilename b md = b"
  using assms by (simp add: extractTitleBaseFromFilename_def Let_def)

lemma parts_three_way:
  assumes "5 \<le> length (xs :: 'a list)"
  shows "xs = take 3 xs @ butlast (drop 3 xs) @ [last xs]"
proof -
  have "drop 3 xs \<noteq> []" using assms by simp
  then have "butlast (drop 3 xs) @ [last (drop 3 xs)] = drop 3 xs"
    by (rule append_butlast_last_id)
  moreover have "last (drop 3 xs) = last xs" using assms by simp
  ultimately have "take 3 xs @ butlast (drop 3 xs) @ [last xs] = take 3 xs @ drop 3 xs"
    by simp
  then show ?thesis by simp
qed

lemma new_layout_shape:
  assumes "5 \<le> length (split (CHR ''-'') b)"
  shows "b = join ''-'' (take 3 (split (CHR ''-'') b)) @ ''-'' @
             join ''-'' (butlast (drop 3 (split (CHR ''-'') b))) @ ''-'' @
             last (split (CHR ''-'') b)"
proof -
  let ?parts = "split (CHR ''-'') b"
  let ?mid = "butlast (drop 3 ?parts)"
  have mid: "?mid \<noteq> []"
    using assms by (simp add: butlast_conv_take)
  have pre: "take 3 ?parts \<noteq> []"
    using assms by auto
  have "join ''-'' (take 3 ?parts @ ?mid @ [last ?parts]) =
      join ''-'' (take 3 ?parts) @ ''-'' @ join ''-'' ?mid @ ''-'' @ last ?parts"
    using mid pre by (simp add: join_append)
  then have "join ''-'' ?parts =
      join ''-'' (take 3 ?parts) @ ''-'' @ join ''-'' ?mid @ ''-'' @ last ?parts"
    using parts_three_way [OF assms] by simp
  then show ?thesis
    using join_split [of "CHR ''-''" b] by simp
qed

lemma old_layout_shape:
  assumes "5 \<le> length (split (CHR ''-'') b)"
  shows "b = join ''-'' (take 3 (split (CHR ''-'') b)) @ ''-'' @ split (CHR ''-'') b ! 3 @ ''-'' @
             join ''-'' (drop 4 (split (CHR ''-'') b))"
proof -
  let ?parts = "split (CHR ''-'') b"
  have "3 < length ?parts" using assms by simp
  then have "drop 3 ?parts = ?parts ! 3 # drop (Suc 3) ?parts"
    by (rule Cons_nth_drop_Suc [symmetric])
  then have d: "drop 3 ?parts = ?parts ! 3 # drop 4 ?parts"
    by simp
  have pre: "take 3 ?parts \<noteq> []" and post: "drop 4 ?parts \<noteq> []"
    using assms by auto
  have "join ''-'' (take 3 ?parts @ [?parts ! 3] @ drop 4 ?parts) =
      join ''-'' (take 3 ?parts) @ ''-'' @ ?parts ! 3 @ ''-'' @ join ''-'' (drop 4 ?parts)"
    using pre post by (simp add: join_append join_Cons)
  moreover have "take 3 ?parts @ [?parts ! 3] @ drop 4 ?parts = ?parts"
    using d by (metis append_take_drop_id append_Cons append_Nil)
  ultimately show ?thesis
    using join_split [of "CHR ''-''" b] by simp
qed
text \<open>
  Claim C2, as the code has it.  The two layout probes apply to names of at least five
  segments: when the last segment is the current status, the slug is what lies between the
  third segment and the last, and the name is prefix, slug, status; otherwise, when the
  fourth segment is the current status, the slug is what follows it, and the name is
  prefix, status, slug.  A name of four segments, or of five and more that matches neither
  layout, has everything after the first three segments as its slug.  A name of three
  segments or fewer is its own slug.
\<close>

theorem extractTitleBase_layouts:
  "(5 \<le> length (split (CHR ''-'') b) \<and> last (split (CHR ''-'') b) = status md \<longrightarrow>
      extractTitleBaseFromFilename b md = join ''-'' (butlast (drop 3 (split (CHR ''-'') b))) \<and>
      b = join ''-'' (take 3 (split (CHR ''-'') b)) @ ''-'' @
          extractTitleBaseFromFilename b md @ ''-'' @ status md) \<and>
   (5 \<le> length (split (CHR ''-'') b) \<and> last (split (CHR ''-'') b) \<noteq> status md \<and>
    split (CHR ''-'') b ! 3 = status md \<longrightarrow>
      extractTitleBaseFromFilename b md = join ''-'' (drop 4 (split (CHR ''-'') b)) \<and>
      b = join ''-'' (take 3 (split (CHR ''-'') b)) @ ''-'' @ status md @ ''-'' @
          extractTitleBaseFromFilename b md) \<and>
   (length (split (CHR ''-'') b) = 4 \<or>
    (5 \<le> length (split (CHR ''-'') b) \<and> last (split (CHR ''-'') b) \<noteq> status md \<and>
     split (CHR ''-'') b ! 3 \<noteq> status md) \<longrightarrow>
      extractTitleBaseFromFilename b md = join ''-'' (drop 3 (split (CHR ''-'') b))) \<and>
   (length (split (CHR ''-'') b) \<le> 3 \<longrightarrow> extractTitleBaseFromFilename b md = b)"
proof (intro conjI impI)
  assume a: "5 \<le> length (split (CHR ''-'') b) \<and> last (split (CHR ''-'') b) = status md"
  then show e: "extractTitleBaseFromFilename b md =
      join ''-'' (butlast (drop 3 (split (CHR ''-'') b)))"
    by (simp add: extract_new_layout)
  from a have len: "5 \<le> length (split (CHR ''-'') b)"
    and st: "last (split (CHR ''-'') b) = status md" by simp_all
  show "b = join ''-'' (take 3 (split (CHR ''-'') b)) @ ''-'' @
          extractTitleBaseFromFilename b md @ ''-'' @ status md"
    unfolding e st [symmetric] by (rule new_layout_shape [OF len])
next
  assume a: "5 \<le> length (split (CHR ''-'') b) \<and> last (split (CHR ''-'') b) \<noteq> status md \<and>
    split (CHR ''-'') b ! 3 = status md"
  then show e: "extractTitleBaseFromFilename b md = join ''-'' (drop 4 (split (CHR ''-'') b))"
    by (simp add: extract_old_layout)
  from a have len: "5 \<le> length (split (CHR ''-'') b)"
    and st: "split (CHR ''-'') b ! 3 = status md" by simp_all
  show "b = join ''-'' (take 3 (split (CHR ''-'') b)) @ ''-'' @ status md @ ''-'' @
          extractTitleBaseFromFilename b md"
    unfolding e st [symmetric] by (rule old_layout_shape [OF len])
next
  assume "length (split (CHR ''-'') b) = 4 \<or>
    (5 \<le> length (split (CHR ''-'') b) \<and> last (split (CHR ''-'') b) \<noteq> status md \<and>
     split (CHR ''-'') b ! 3 \<noteq> status md)"
  then show "extractTitleBaseFromFilename b md = join ''-'' (drop 3 (split (CHR ''-'') b))"
    by (rule extract_fallback)
next
  assume "length (split (CHR ''-'') b) \<le> 3"
  then show "extractTitleBaseFromFilename b md = b"
    by (rule extract_short)
qed

theorem extractTitleBase_layouts_witness:
  "extractTitleBaseFromFilename ''standard-backend-development-spring-boot-active'' sample_metadata
     = ''spring-boot'' \<and>
   extractTitleBaseFromFilename ''standard-backend-development-active-spring-boot'' sample_metadata
     = ''spring-boot'' \<and>
   extractTitleBaseFromFilename ''standard-backend-development-spring-boot-draft'' sample_metadata
     = ''spring-boot-draft'' \<and>
   extractTitleBaseFromFilename ''standard-backend-development-active'' sample_metadata
     = ''active'' \<and>
   extractTitleBaseFromFilename ''spring-boot'' sample_metadata = ''spring-boot''"
proof -
  let ?new = "''standard-backend-development-spring-boot-active''"
  let ?old = "''standard-backend-development-active-spring-boot''"
  let ?neither = "''standard-backend-development-spring-boot-draft''"
  let ?four = "''standard-backend-development-active''"
  let ?short = "''spring-boot''"
  have "extractTitleBaseFromFilename ?new sample_metadata =
          join ''-'' (butlast (drop 3 (split (CHR ''-'') ?new)))"
    by (rule extractTitleBase_layouts [of ?new sample_metadata, THEN conjunct1, THEN mp,
          THEN conjunct1])
       (simp add: sample_metadata_def)
  then have 1: "extractTitleBaseFromFilename ?new sample_metadata = ''spring-boot''"
    by simp
  have "extractTitleBaseFromFilename ?old sample_metadata =
          join ''-'' (drop 4 (split (CHR ''-'') ?old))"
    by (rule extractTitleBase_layouts [of ?old sample_metadata, THEN conjunct2, THEN conjunct1,
          THEN mp, THEN conjunct1])
       (simp add: sample_metadata_def)
  then have 2: "extractTitleBaseFromFilename ?old sample_metadata = ''spring-boot''"
    by simp
  have "extractTitleBaseFromFilename ?neither sample_metadata =
          join ''-'' (drop 3 (split (CHR ''-'') ?neither))"
    by (rule extractTitleBase_layouts [of ?neither sample_metadata, THEN conjunct2,
          THEN conjunct2, THEN conjunct1, THEN mp])
       (simp add: sample_metadata_def)
  then have 3: "extractTitleBaseFromFilename ?neither sample_metadata = ''spring-boot-draft''"
    by simp
  have "extractTitleBaseFromFilename ?four sample_metadata =
          join ''-'' (drop 3 (split (CHR ''-'') ?four))"
    by (rule extractTitleBase_layouts [of ?four sample_metadata, THEN conjunct2,
          THEN conjunct2, THEN conjunct1, THEN mp])
       simp
  then have 4: "extractTitleBaseFromFilename ?four sample_metadata = ''active''"
    by simp
  have 5: "extractTitleBaseFromFilename ?short sample_metadata = ?short"
    by (rule extractTitleBase_layouts [of ?short sample_metadata, THEN conjunct2,
          THEN conjunct2, THEN conjunct2, THEN mp])
       simp
  from 1 2 3 4 5 show ?thesis by blast
qed

text \<open>
  The claim as stated fails on a four-segment name whose last segment is the status: the
  code returns that segment, not the empty run of segments between the third and the last.
\<close>

theorem extractTitleBase_four_segments_counterexample:
  "last (split (CHR ''-'') ''standard-backend-development-active'') = status sample_metadata \<and>
   extractTitleBaseFromFilename ''standard-backend-development-active'' sample_metadata
     \<noteq> join ''-'' (butlast (drop 3 (split (CHR ''-'') ''standard-backend-development-active'')))"
  by (simp add: extractTitleBaseFromFilename_def sample_metadata_def)

section \<open>Path normalisation\<close>

lemma standards_segment_shorter:
  assumes "standards_segment p = Some r"
  shows "length r < length p"
proof (cases "drop 9 p")
  case Nil
  then show ?thesis using assms by (simp add: standards_segment_def)
next
  case (Cons c rest)
  then have "drop 9 p \<noteq> []" by simp
  then have "9 < length p" by simp
  moreover have "r = drop 10 p"
    using assms by (simp add: standards_segment_def split: if_splits)
  ultimately show ?thesis by simp
qed

lemma match_store_prefix_shorter:
  assumes "match_store_prefix p = Some r"
  shows "length r < length p"
proof (cases p)
  case Nil
  then show ?thesis using assms by (simp add: match_store_prefix_def)
next
  case (Cons c rest)
  show ?thesis
  proof (cases "is_sep c")
    case True
    then have "standards_segment rest = Some r"
      using assms Cons by (simp add: match_store_prefix_def)
    then have "length r < length rest" by (rule standards_segment_shorter)
    then show ?thesis using Cons by simp
  next
    case False
    then have "standards_segment p = Some r"
      using assms Cons by (simp add: match_store_prefix_def)
    then show ?thesis by (rule standards_segment_shorter)
  qed
qed

lemma strip_store_prefix_fixed_iff:
  "strip_store_prefix p = p \<longleftrightarrow> match_store_prefix p = None"
proof (cases "match_store_prefix p")
  case None
  then show ?thesis by (simp add: strip_store_prefix_def)
next
  case (Some r)
  then have "length r < length p" by (rule match_store_prefix_shorter)
  then have "r \<noteq> p" by auto
  then show ?thesis using Some by (simp add: strip_store_prefix_def)
qed

lemma match_store_prefix_Nil: "match_store_prefix [] = None"
  by (simp add: match_store_prefix_def)

text \<open>
  Claim C7, as the code has it.  Both normalisations remove one leading store-directory
  segment and no more.  A path without such a segment is left as it is, so normalising a
  normalised path is a no-op; and for every input, normalising twice gives the same as
  normalising once exactly when the result of the first pass does not itself start with a
  store-directory segment.  (For \<open>normalizeTargetPath\<close> the first result must also not be
  absolute, which no result of \<open>path.relative\<close> is.)
\<close>

theorem normalize_twice_iff:
  "(match_store_prefix s = None \<longrightarrow> normalizeIndexPath (Some s) = Some s) \<and>
   (normalizeIndexPath (normalizeIndexPath (Some s)) = normalizeIndexPath (Some s)
      \<longleftrightarrow> match_store_prefix (the (normalizeIndexPath (Some s))) = None) \<and>
   (match_store_prefix s = None \<and> \<not> path_isAbsolute s \<longrightarrow> normalizeTargetPath e s = s) \<and>
   (\<not> path_isAbsolute (normalizeTargetPath e s) \<longrightarrow>
      (normalizeTargetPath e (normalizeTargetPath e s) = normalizeTargetPath e s
         \<longleftrightarrow> match_store_prefix (normalizeTargetPath e s) = None))"
proof (intro conjI impI)
  assume "match_store_prefix s = None"
  then show "normalizeIndexPath (Some s) = Some s"
    by (simp add: normalizeIndexPath_def strip_store_prefix_def)
next
  show "normalizeIndexPath (normalizeIndexPath (Some s)) = normalizeIndexPath (Some s)
      \<longleftrightarrow> match_store_prefix (the (normalizeIndexPath (Some s))) = None"
    by (auto simp: normalizeIndexPath_def strip_store_prefix_fixed_iff match_store_prefix_Nil)
next
  assume "match_store_prefix s = None \<and> \<not> path_isAbsolute s"
  then show "normalizeTargetPath e s = s"
    by (simp add: normalizeTargetPath_def strip_store_prefix_def)
next
  assume "\<not> path_isAbsolute (normalizeTargetPath e s)"
  then show "normalizeTargetPath e (normalizeTargetPath e s) = normalizeTargetPath e s
         \<longleftrightarrow> match_store_prefix (normalizeTargetPath e s) = None"
    unfolding normalizeTargetPath_def [of e "normalizeTargetPath e s"]
    by (simp add: strip_store_prefix_fixed_iff match_store_prefix_Nil)
qed

theorem normalize_twice_iff_witness:
  "normalizeIndexPath (Some ''standards/a.md'') = Some ''a.md'' \<and>
   normalizeIndexPath (normalizeIndexPath (Some ''standards/a.md'')) =
     normalizeIndexPath (Some ''standards/a.md'') \<and>
   normalizeTargetPath sample_env ''a.md'' = ''a.md'' \<and>
   normalizeTargetPath sample_env (normalizeTargetPath sample_env ''/kb/a.md'') =
     normalizeTargetPath sample_env ''/kb/a.md''"
proof -
  have i: "normalizeIndexPath (Some ''standards/a.md'') = Some ''a.md''"
    by (simp add: normalizeIndexPath_def strip_store_prefix_def match_store_prefix_def
          standards_segment_def is_sep_def toLowerCase_def lower_char_def)
  have n: "match_store_prefix ''a.md'' = None"
    by (simp add: match_store_prefix_def standards_segment_def is_sep_def toLowerCase_def
          lower_char_def)
  have t: "normalizeTargetPath sample_env ''/kb/a.md'' = ''a.md''"
    by (simp add: normalizeTargetPath_def path_isAbsolute_def sample_env_def)
  have a: "\<not> path_isAbsolute ''a.md''"
    by (simp add: path_isAbsolute_def)
  have 2: "normalizeIndexPath (normalizeIndexPath (Some ''standards/a.md'')) =
     normalizeIndexPath (Some ''standards/a.md'')"
    using normalize_twice_iff [of "''standards/a.md''" sample_env, THEN conjunct2, THEN conjunct1]
      i n by simp
  have 3: "normalizeTargetPath sample_env ''a.md'' = ''a.md''"
    using normalize_twice_iff [of "''a.md''" sample_env, THEN conjunct2, THEN conjunct2,
        THEN conjunct1] n a by simp
  have 4: "normalizeTargetPath sample_env (normalizeTargetPath sample_env ''/kb/a.md'') =
     normalizeTargetPath sample_env ''/kb/a.md''"
    using normalize_twice_iff [of "''/kb/a.md''" sample_env, THEN conjunct2, THEN conjunct2,
        THEN conjunct2] t n a by simp
  from i 2 3 4 show ?thesis by blast
qed

text \<open>
  The claim as stated fails on a path with two leading store-directory segments, in the
  index engine and in the storage layer alike: each pass removes one.
\<close>

theorem normalize_twice_counterexample:
  "normalizeIndexPath (normalizeIndexPath (Some ''standards/standards/a.md''))
     \<noteq> normalizeIndexPath (Some ''standards/standards/a.md'') \<and>
   normalizeTargetPath sample_env (normalizeTargetPath sample_env ''standards/standards/a.md'')
     \<noteq> normalizeTargetPath sample_env ''standards/standards/a.md''"
  by (simp add: normalizeIndexPath_def normalizeTargetPath_def path_isAbsolute_def
        strip_store_prefix_def match_store_prefix_def
        standards_segment_def is_sep_def toLowerCase_def lower_char_def)


section \<open>Lookup by path\<close>

lemma find_at_self: "find_at q q k = Some k"
  by (cases q) auto

lemma str_includes_self: "str_includes s s"
  by (simp add: str_includes_def indexOf_def find_at_self)

lemma findByPath_callback:
  "(\<lambda>s. let sBase = base_name (path s) in
          if sBase = nb then True else if str_includes sBase nb then True else False)
   = (\<lambda>s. str_includes (base_name (path s)) nb)"
proof
  fix s
  show "(let sBase = base_name (path s) in
          if sBase = nb then True else if str_includes sBase nb then True else False)
        = str_includes (base_name (path s)) nb"
    using str_includes_self [of nb] by (cases "base_name (path s) = nb") (simp_all add: Let_def)
qed

text \<open>What the code does: two stages.  The base-name test for equality is subsumed by the
  test for containment in the same callback, so the second search returns the first
  document, in snapshot order, whose base name contains the queried one.\<close>

lemma findByPath_two_stages:
  "findByPath stds p =
     (case normalizeIndexPath (Some p) of
        None \<Rightarrow> None
      | Some normalized \<Rightarrow>
          if normalized = [] then None
          else (case find (\<lambda>s. path s = normalized) stds of
                  Some m \<Rightarrow> Some m
                | None \<Rightarrow> find (\<lambda>s. str_includes (base_name (path s)) (base_name normalized))
                            stds))"
  unfolding findByPath_def Let_def [of "base_name _"] findByPath_callback [unfolded Let_def] ..

text \<open>
  Claim C1 at a concrete snapshot.  The query \<open>spring-boot\<close> equals no stored path; the
  second document's base name equals it, the first document's base name merely contains
  it.  The three-stage resolution of the specification returns the second document, the
  code returns the first.
\<close>

theorem findByPath_substring_shadows_exact_base:
  "findByPath [sample_standard ''spring-boot-guide.md'' [''api''] [],
               sample_standard ''spring-boot.md'' [''api''] []] ''spring-boot''
     = Some (sample_standard ''spring-boot-guide.md'' [''api''] []) \<and>
   spec_findByPath [sample_standard ''spring-boot-guide.md'' [''api''] [],
                    sample_standard ''spring-boot.md'' [''api''] []] ''spring-boot''
     = Some (sample_standard ''spring-boot.md'' [''api''] [])"
  by (simp add: findByPath_two_stages spec_findByPath_def normalizeIndexPath_def
        strip_store_prefix_def match_store_prefix_def standards_segment_def is_sep_def
        base_name_def strip_md_def strip_dirs_def is_line_terminator_def endsWith_def
        str_includes_def indexOf_def sample_standard_def toLowerCase_def lower_char_def)

section \<open>File-name derivation\<close>

text \<open>
  Claim C4 at a concrete input.  The slug \<open>!!!\<close> sanitizes to the empty string, so the
  derived name has an empty slug between two hyphens.  Fed back in as the slug, that name
  is sanitized again, the double hyphen collapses, the status is taken for the slug, and
  the status suffix is attached a second time: the two names differ.
\<close>

theorem generateFilePath_empty_slug_not_idempotent:
  "valid_metadata sample_metadata \<and>
   generateFilePath sample_metadata (Some ''!!!'') = ''standard-backend-development--active.md'' \<and>
   generateFilePath sample_metadata (Some (generateFilePath sample_metadata (Some ''!!!'')))
     = ''standard-backend-development-active-active.md''"
proof -
  have v: "valid_metadata sample_metadata"
    by (simp add: valid_metadata_def sample_metadata_def)
  have 1: "generateFilePath sample_metadata (Some ''!!!'')
             = ''standard-backend-development--active.md''"
    by (simp add: sample_metadata_def generateFilePath_def sanitizeFilename_def kebab_def
          truthy_def MARKDOWN_EXTENSION_def strip_store_prefix_def match_store_prefix_def
          standards_segment_def is_sep_def path_basename_def endsWith_def startsWith_def
          toLowerCase_def lower_char_def is_alnum_def trim_hyphen_def)
  have 2: "generateFilePath sample_metadata (Some ''standard-backend-development--active.md'')
             = ''standard-backend-development-active-active.md''"
    by (simp add: sample_metadata_def generateFilePath_def sanitizeFilename_def kebab_def
          truthy_def MARKDOWN_EXTENSION_def strip_store_prefix_def match_store_prefix_def
          standards_segment_def is_sep_def path_basename_def endsWith_def startsWith_def
          toLowerCase_def lower_char_def is_alnum_def trim_hyphen_def)
  from v 1 2 show ?thesis by simp
qed

section \<open>Update: rename, then rewrite\<close>

lemma update_plan_fields:
  assumes "update_plan e files filePath upd = Inr pl"
  shows "\<exists>titleBase.
           newRelativePath pl =
             normalizeTargetPath e (generateFilePath (metadata (updated_standard pl)) (Some titleBase)) \<and>
           newFullPath pl = path_join e (newRelativePath pl) \<and>
           path (updated_standard pl) = path_relative e (newFullPath pl)"
  using assms
  by (auto simp: update_plan_def Let_def split: sum.splits)

lemma generateFilePath_prefix:
  "\<exists>rest. generateFilePath md f =
      join ''-'' (map toLowerCase (filter (\<lambda>p. p \<noteq> []) [type md, tier md, process md])) @ ''-'' @ rest"
  by (simp add: generateFilePath_def Let_def)

lemma typed_name_not_prefixed:
  assumes "t \<in> set [''principle'', ''standard'', ''practice'', ''tech-stack'', ''process'']"
  shows "match_store_prefix (t @ ''-'' @ r) = None \<and> \<not> path_isAbsolute (t @ ''-'' @ r)"
  using assms
  by (auto simp: match_store_prefix_def standards_segment_def is_sep_def path_isAbsolute_def
        toLowerCase_def lower_char_def)

lemma valid_metadataD:
  assumes "valid_metadata md"
  shows "type md \<in> set [''principle'', ''standard'', ''practice'', ''tech-stack'', ''process'']"
    and "tier md \<in> set [''frontend'', ''backend'', ''database'', ''infrastructure'', ''security'']"
    and "process md \<in> set [''development'', ''testing'', ''delivery'', ''operations'']"
    and "status md \<in> set [''active'', ''draft'', ''deprecated'']"
  using assms unfolding valid_metadata_def by blast+

lemma valid_type_lower:
  assumes "valid_metadata md"
  shows "toLowerCase (type md) = type md" and "type md \<noteq> []"
    and "tier md \<noteq> []" and "process md \<noteq> []"
proof -
  show "toLowerCase (type md) = type md"
    using valid_metadataD(1) [OF assms] by (auto simp: toLowerCase_def lower_char_def)
  show "type md \<noteq> []"
    using valid_metadataD(1) [OF assms] by auto
  show "tier md \<noteq> []"
    using valid_metadataD(2) [OF assms] by auto
  show "process md \<noteq> []"
    using valid_metadataD(3) [OF assms] by auto
qed

lemma valid_name_not_prefixed:
  assumes "valid_metadata md"
  shows "match_store_prefix (generateFilePath md f) = None \<and>
         \<not> path_isAbsolute (generateFilePath md f)"
proof -
  obtain rest where n: "generateFilePath md f =
      join ''-'' (map toLowerCase (filter (\<lambda>p. p \<noteq> []) [type md, tier md, process md])) @ ''-'' @ rest"
    using generateFilePath_prefix by blast
  let ?r = "toLowerCase (tier md) @ ''-'' @ toLowerCase (process md) @ ''-'' @ rest"
  have "filter (\<lambda>p. p \<noteq> []) [type md, tier md, process md] = [type md, tier md, process md]"
    using valid_type_lower(2-4) [OF assms] by simp
  then have "generateFilePath md f = type md @ ''-'' @ ?r"
    using valid_type_lower(1) [OF assms] by (simp add: n)
  then show ?thesis
    using typed_name_not_prefixed [OF valid_metadataD(1) [OF assms], of ?r] by simp
qed

lemma valid_name_normalized:
  assumes "valid_metadata md"
  shows "normalizeTargetPath e (generateFilePath md f) = generateFilePath md f"
  using valid_name_not_prefixed [OF assms, of f]
  by (simp add: normalizeTargetPath_def strip_store_prefix_def)

lemma commit_conflict:
  assumes "oldFullPath pl \<noteq> newFullPath pl" and "files (newFullPath pl) \<noteq> None"
  shows "update_commit e files pl = (Inl (TargetExists (newRelativePath pl)), [files])"
  using assms by (auto simp: update_commit_def fs_access_def)

lemma commit_rename:
  assumes "oldFullPath pl \<noteq> newFullPath pl" and "files (newFullPath pl) = None"
    and "files (oldFullPath pl) = Some c"
  shows "update_commit e files pl =
           (Inr (updated_standard pl),
            [files,
             (files(oldFullPath pl := None))(newFullPath pl \<mapsto> c),
             (files(oldFullPath pl := None))
               (newFullPath pl \<mapsto> serializeStandard e (updated_standard pl))])"
  using assms by (simp add: update_commit_def fs_access_def fs_rename_def fs_writeFile_def)

lemma commit_in_place:
  assumes "oldFullPath pl = newFullPath pl"
    and "resolve e (normalizeTargetPath e (path (updated_standard pl))) = newFullPath pl"
  shows "update_commit e files pl =
           (Inr (updated_standard pl),
            [files, files(newFullPath pl \<mapsto> serializeStandard e (updated_standard pl))])"
  using assms
  by (simp add: update_commit_def writeStandard_def truthy_def fs_writeFile_def Let_def)

lemma plan_write_target:
  assumes "update_plan e files filePath upd = Inr pl"
    and "valid_metadata (metadata (updated_standard pl))"
    and "path_relative e (newFullPath pl) = newRelativePath pl"
  shows "resolve e (normalizeTargetPath e (path (updated_standard pl))) = newFullPath pl"
proof -
  obtain titleBase where
    rel: "newRelativePath pl =
            normalizeTargetPath e (generateFilePath (metadata (updated_standard pl)) (Some titleBase))"
    and full: "newFullPath pl = path_join e (newRelativePath pl)"
    and pth: "path (updated_standard pl) = path_relative e (newFullPath pl)"
    using update_plan_fields [OF assms(1)] by blast
  let ?name = "generateFilePath (metadata (updated_standard pl)) (Some titleBase)"
  have name: "newRelativePath pl = ?name"
    using rel valid_name_normalized [OF assms(2)] by simp
  have "path (updated_standard pl) = ?name"
    using pth assms(3) name by simp
  then have "normalizeTargetPath e (path (updated_standard pl)) = ?name"
    using valid_name_normalized [OF assms(2)] by simp
  moreover have "\<not> path_isAbsolute ?name"
    using valid_name_not_prefixed [OF assms(2)] by simp
  ultimately show ?thesis
    using full name by (simp add: resolve_def)
qed

text \<open>
  Claim C3.  Let an update get as far as its derived names (\<open>update_plan\<close> succeeds).  If the
  new name differs from the old and a file occupies the new name, the update fails with the
  conflict error and the file system is unchanged.  If the new name differs, is free, and
  the existing file is at the old name, the file is renamed and then rewritten with the
  serialized merged document; in the state between the two calls the document is at the new
  name and not at the old one (at exactly one of the two paths), and no other file has
  changed.  If the name is unchanged, the one change to the file system is the rewrite of
  that file (here the validated metadata is valid and \<open>path.relative\<close> gives back the
  relative name that \<open>path.join\<close> was given).
\<close>

theorem updateStandard_rename_then_rewrite:
  assumes "update_plan e files filePath upd = Inr pl"
  shows
    "(oldFullPath pl \<noteq> newFullPath pl \<and> files (newFullPath pl) \<noteq> None \<longrightarrow>
        updateStandard e files filePath upd = (Inl (TargetExists (newRelativePath pl)), [files])) \<and>
     (oldFullPath pl \<noteq> newFullPath pl \<and> files (newFullPath pl) = None \<and>
      files (oldFullPath pl) = Some c \<longrightarrow>
        (\<exists>renamed.
           updateStandard e files filePath upd =
             (Inr (updated_standard pl),
              [files, renamed,
               renamed(newFullPath pl \<mapsto> serializeStandard e (updated_standard pl))]) \<and>
           renamed (oldFullPath pl) = None \<and>
           renamed (newFullPath pl) = Some c \<and>
           (\<forall>p. p \<noteq> oldFullPath pl \<and> p \<noteq> newFullPath pl \<longrightarrow> renamed p = files p))) \<and>
     (oldFullPath pl = newFullPath pl \<and> valid_metadata (metadata (updated_standard pl)) \<and>
      path_relative e (newFullPath pl) = newRelativePath pl \<longrightarrow>
        updateStandard e files filePath upd =
          (Inr (updated_standard pl),
           [files, files(newFullPath pl \<mapsto> serializeStandard e (updated_standard pl))]))"
proof (intro conjI impI)
  assume "oldFullPath pl \<noteq> newFullPath pl \<and> files (newFullPath pl) \<noteq> None"
  then show "updateStandard e files filePath upd =
      (Inl (TargetExists (newRelativePath pl)), [files])"
    using assms by (simp add: updateStandard_def commit_conflict)
next
  assume a: "oldFullPath pl \<noteq> newFullPath pl \<and> files (newFullPath pl) = None \<and>
      files (oldFullPath pl) = Some c"
  let ?renamed = "(files(oldFullPath pl := None))(newFullPath pl \<mapsto> c)"
  have "updateStandard e files filePath upd =
          (Inr (updated_standard pl),
           [files, ?renamed,
            ?renamed(newFullPath pl \<mapsto> serializeStandard e (updated_standard pl))])"
    using assms a by (simp add: updateStandard_def commit_rename)
  moreover have "?renamed (oldFullPath pl) = None"
    using a by simp
  moreover have "?renamed (newFullPath pl) = Some c"
    by simp
  moreover have "\<forall>p. p \<noteq> oldFullPath pl \<and> p \<noteq> newFullPath pl \<longrightarrow> ?renamed p = files p"
    by simp
  ultimately show "\<exists>renamed.
           updateStandard e files filePath upd =
             (Inr (updated_standard pl),
              [files, renamed,
               renamed(newFullPath pl \<mapsto> serializeStandard e (updated_standard pl))]) \<and>
           renamed (oldFullPath pl) = None \<and>
           renamed (newFullPath pl) = Some c \<and>
           (\<forall>p. p \<noteq> oldFullPath pl \<and> p \<noteq> newFullPath pl \<longrightarrow> renamed p = files p)"
    by blast
next
  assume a: "oldFullPath pl = newFullPath pl \<and> valid_metadata (metadata (updated_standard pl)) \<and>
      path_relative e (newFullPath pl) = newRelativePath pl"
  then have "resolve e (normalizeTargetPath e (path (updated_standard pl))) = newFullPath pl"
    using plan_write_target [OF assms] by simp
  then show "updateStandard e files filePath upd =
          (Inr (updated_standard pl),
           [files, files(newFullPath pl \<mapsto> serializeStandard e (updated_standard pl))])"
    using assms a by (simp add: updateStandard_def commit_in_place)
qed

lemma read_sample:
  assumes "files (''/kb/'' @ sample_name) = Some ''---old body''"
  shows "readStandard sample_env files sample_name
           = Inr (sample_standard sample_name [''api''] ''old body'')"
proof -
  have "normalizeTargetPath sample_env sample_name = sample_name"
    by (simp add: normalizeTargetPath_def path_isAbsolute_def strip_store_prefix_def
          match_store_prefix_def standards_segment_def is_sep_def sample_name_def
          toLowerCase_def lower_char_def)
  moreover have "resolve sample_env sample_name = ''/kb/'' @ sample_name"
    by (simp add: resolve_def path_isAbsolute_def sample_name_def sample_env_def)
  ultimately show ?thesis
    using assms by (simp add: readStandard_def fs_readFile_def sample_env_def startsWith_def)
qed

lemma basename_sample: "strip_ext (path_basename sample_name)
             = ''standard-backend-development-spring-boot-active''"
  by (simp add: strip_ext_def path_basename_def sample_name_def)

lemma slug_sample: "extractTitleBaseFromFilename ''standard-backend-development-spring-boot-active''
             (sample_metadata\<lparr>tags := [''api'']\<rparr>) = ''spring-boot''"
  by (simp add: extractTitleBaseFromFilename_def sample_metadata_def slice_def)

lemma name_deprecated: "generateFilePath
             (sample_metadata\<lparr>tags := [''api''], status := ''deprecated'', updated := ''2024-06-01''\<rparr>)
             (Some ''spring-boot'') = sample_renamed"
  by (simp add: sample_metadata_def generateFilePath_def sanitizeFilename_def kebab_def
          truthy_def MARKDOWN_EXTENSION_def strip_store_prefix_def match_store_prefix_def
          standards_segment_def is_sep_def path_basename_def endsWith_def startsWith_def
          toLowerCase_def lower_char_def is_alnum_def trim_hyphen_def sample_renamed_def)

lemma valid_deprecated: "valid_metadata
             (sample_metadata\<lparr>tags := [''api''], status := ''deprecated'', updated := ''2024-06-01''\<rparr>)"
  by (simp add: valid_metadata_def sample_metadata_def)

lemma sample_names_normalized: "normalizeTargetPath sample_env sample_renamed = sample_renamed"
          "normalizeTargetPath sample_env sample_name = sample_name"
  by (simp_all add: normalizeTargetPath_def path_isAbsolute_def
        strip_store_prefix_def match_store_prefix_def standards_segment_def is_sep_def
        sample_renamed_def sample_name_def toLowerCase_def lower_char_def)


lemma sample_env_fields:
  "path_join sample_env p = ''/kb/'' @ p"
  "path_relative sample_env p = drop 4 p"
  "validateMetadata sample_env md =
     (if valid_metadata md then Inr md else Inl (Rejected ''Invalid metadata''))"
  "generateISODate sample_env = ''2024-06-01''"
  "serializeStandard sample_env s = ''---'' @ content s"
  by (simp_all add: sample_env_def)

lemma sample_standard_fields:
  "metadata (sample_standard p ts b) = sample_metadata\<lparr>tags := ts\<rparr>"
  "content (sample_standard p ts b) = b"
  "path (sample_standard p ts b) = p"
  by (simp_all add: sample_standard_def)

lemma merge_deprecate: "merge_metadata (sample_metadata\<lparr>tags := [''api'']\<rparr>)
             (no_patch\<lparr>p_status := Some ''deprecated''\<rparr>) ''2024-06-01''
           = sample_metadata\<lparr>tags := [''api''], status := ''deprecated'', updated := ''2024-06-01''\<rparr>"
  by (simp add: merge_metadata_def or_else_def no_patch_def sample_metadata_def)

lemma name_unchanged: "generateFilePath (sample_metadata\<lparr>tags := [''api'']\<rparr>) (Some ''spring-boot'')
             = sample_name"
  by (simp add: sample_metadata_def generateFilePath_def sanitizeFilename_def kebab_def
          truthy_def MARKDOWN_EXTENSION_def strip_store_prefix_def match_store_prefix_def
          standards_segment_def is_sep_def path_basename_def endsWith_def startsWith_def
          toLowerCase_def lower_char_def is_alnum_def trim_hyphen_def sample_name_def)

lemma valid_sample: "valid_metadata (sample_metadata\<lparr>tags := [''api'']\<rparr>)"
  by (simp add: valid_metadata_def sample_metadata_def)

lemma plan_deprecate:
  assumes "files (''/kb/'' @ sample_name) = Some ''---old body''"
  shows "update_plan sample_env files sample_name deprecate =
     Inr \<lparr>oldFullPath = ''/kb/'' @ sample_name,
          newFullPath = ''/kb/'' @ sample_renamed,
          newRelativePath = sample_renamed,
          updated_standard =
            \<lparr>metadata = sample_metadata\<lparr>tags := [''api''], status := ''deprecated'',
                                          updated := ''2024-06-01''\<rparr>,
             content = ''new body'',
             path = sample_renamed\<rparr>\<rparr>"
  by (simp add: update_plan_def read_sample [of files, OF assms] sample_standard_fields deprecate_def merge_deprecate
        sample_env_fields valid_deprecated basename_sample slug_sample name_deprecated sample_names_normalized or_else_def)

lemma plan_rewrite_only:
  assumes "files (''/kb/'' @ sample_name) = Some ''---old body''"
  shows "update_plan sample_env files sample_name \<lparr>u_content = Some ''new body'', u_metadata = None\<rparr> =
     Inr \<lparr>oldFullPath = ''/kb/'' @ sample_name,
          newFullPath = ''/kb/'' @ sample_name,
          newRelativePath = sample_name,
          updated_standard =
            \<lparr>metadata = sample_metadata\<lparr>tags := [''api'']\<rparr>,
             content = ''new body'',
             path = sample_name\<rparr>\<rparr>"
  by (simp add: update_plan_def read_sample [of files, OF assms] sample_standard_fields
        sample_env_fields valid_sample basename_sample slug_sample name_unchanged sample_names_normalized or_else_def)

lemma names_differ: "''/kb/'' @ sample_name \<noteq> ''/kb/'' @ sample_renamed"
  by (simp add: sample_name_def sample_renamed_def)

theorem updateStandard_rename_then_rewrite_witness:
  "fst (updateStandard sample_env sample_files sample_name deprecate) =
     Inr \<lparr>metadata = sample_metadata\<lparr>tags := [''api''], status := ''deprecated'',
                                       updated := ''2024-06-01''\<rparr>,
          content = ''new body'', path = sample_renamed\<rparr> \<and>
   length (snd (updateStandard sample_env sample_files sample_name deprecate)) = 3 \<and>
   (snd (updateStandard sample_env sample_files sample_name deprecate) ! 1)
     (''/kb/'' @ sample_name) = None \<and>
   (snd (updateStandard sample_env sample_files sample_name deprecate) ! 1)
     (''/kb/'' @ sample_renamed) = Some ''---old body'' \<and>
   (snd (updateStandard sample_env sample_files sample_name deprecate) ! 2)
     (''/kb/'' @ sample_renamed) = Some ''---new body'' \<and>
   updateStandard sample_env (sample_files(''/kb/'' @ sample_renamed \<mapsto> ''---other''))
       sample_name deprecate =
     (Inl (TargetExists sample_renamed),
      [sample_files(''/kb/'' @ sample_renamed \<mapsto> ''---other'')]) \<and>
   updateStandard sample_env sample_files sample_name
       \<lparr>u_content = Some ''new body'', u_metadata = None\<rparr> =
     (Inr \<lparr>metadata = sample_metadata\<lparr>tags := [''api'']\<rparr>, content = ''new body'',
           path = sample_name\<rparr>,
      [sample_files, sample_files(''/kb/'' @ sample_name \<mapsto> ''---new body'')])"
proof -
  let ?old = "''/kb/'' @ sample_name"
  let ?new = "''/kb/'' @ sample_renamed"
  let ?busy = "sample_files(?new \<mapsto> ''---other'')"
  have here: "sample_files ?old = Some ''---old body''"
    by (simp add: sample_files_def)
  have free: "sample_files ?new = None"
    using names_differ by (simp add: sample_files_def)
  have busy_here: "?busy ?old = Some ''---old body''"
    using names_differ here by simp
  note r = updateStandard_rename_then_rewrite [OF plan_deprecate [of sample_files, OF here],
      of "''---old body''", THEN conjunct2, THEN conjunct1, THEN mp]
  have "\<exists>renamed.
          updateStandard sample_env sample_files sample_name deprecate =
            (Inr \<lparr>metadata = sample_metadata\<lparr>tags := [''api''], status := ''deprecated'',
                                              updated := ''2024-06-01''\<rparr>,
                  content = ''new body'', path = sample_renamed\<rparr>,
             [sample_files, renamed, renamed(?new \<mapsto> ''---new body'')]) \<and>
          renamed ?old = None \<and> renamed ?new = Some ''---old body''"
    using r names_differ here free by (simp add: sample_env_fields) blast
  then have 1: "fst (updateStandard sample_env sample_files sample_name deprecate) =
     Inr \<lparr>metadata = sample_metadata\<lparr>tags := [''api''], status := ''deprecated'',
                                       updated := ''2024-06-01''\<rparr>,
          content = ''new body'', path = sample_renamed\<rparr> \<and>
   length (snd (updateStandard sample_env sample_files sample_name deprecate)) = 3 \<and>
   (snd (updateStandard sample_env sample_files sample_name deprecate) ! 1) ?old = None \<and>
   (snd (updateStandard sample_env sample_files sample_name deprecate) ! 1) ?new
      = Some ''---old body'' \<and>
   (snd (updateStandard sample_env sample_files sample_name deprecate) ! 2) ?new
      = Some ''---new body''"
    by auto
  have 2: "updateStandard sample_env ?busy sample_name deprecate =
     (Inl (TargetExists sample_renamed), [?busy])"
    using updateStandard_rename_then_rewrite [OF plan_deprecate [of ?busy, OF busy_here],
        THEN conjunct1, THEN mp] names_differ
    by simp
  have 3: "updateStandard sample_env sample_files sample_name
       \<lparr>u_content = Some ''new body'', u_metadata = None\<rparr> =
     (Inr \<lparr>metadata = sample_metadata\<lparr>tags := [''api'']\<rparr>, content = ''new body'',
           path = sample_name\<rparr>,
      [sample_files, sample_files(?old \<mapsto> ''---new body'')])"
    using updateStandard_rename_then_rewrite [OF plan_rewrite_only [of sample_files, OF here],
        THEN conjunct2, THEN conjunct2, THEN mp] valid_sample
    by (simp add: sample_env_fields)
  from 1 2 3 show ?thesis by blast
qed

section \<open>Search\<close>

lemma occurs_at_take: "occurs_at s q i \<longleftrightarrow> take (length q) (drop i s) = q \<and> i \<le> length s"
proof
  assume "occurs_at s q i"
  then show "take (length q) (drop i s) = q \<and> i \<le> length s"
    by (simp add: occurs_at_def)
next
  assume a: "take (length q) (drop i s) = q \<and> i \<le> length s"
  then have "length (take (length q) (drop i s)) = length q" by simp
  then have "length q \<le> length s - i" by simp
  then have "i + length q \<le> length s" using a by linarith
  then show "occurs_at s q i" using a by (simp add: occurs_at_def)
qed

lemma pos_from_step:
  assumes "k \<le> length s"
  shows "pos_from s q k = (if occurs_at s q k then [k] else []) @ pos_from s q (Suc k)"
proof -
  have "[k..<Suc (length s)] = k # [Suc k..<Suc (length s)]"
    using assms by (simp add: upt_conv_Cons)
  then show ?thesis by (simp add: pos_from_def)
qed

lemma pos_from_end: "length s < k \<Longrightarrow> pos_from s q k = []"
  by (simp add: pos_from_def)

lemma indexOf_hit:
  assumes "occurs_at s q k"
  shows "indexOf s q k = Some k"
proof -
  have k: "k \<le> length s" and t: "take (length q) (drop k s) = q"
    using assms by (simp_all add: occurs_at_take)
  show ?thesis
  proof (cases "drop k s")
    case Nil
    then have "q = []" using t by simp
    then show ?thesis using k Nil by (simp add: indexOf_def min_def)
  next
    case (Cons x xs)
    then show ?thesis using k t by (simp add: indexOf_def min_def)
  qed
qed

lemma indexOf_miss:
  assumes "k < length s" and "\<not> occurs_at s q k"
  shows "indexOf s q k = indexOf s q (Suc k)"
proof -
  have d: "drop k s = s ! k # drop (Suc k) s"
    using assms(1) by (simp add: Cons_nth_drop_Suc)
  have "take (length q) (drop k s) \<noteq> q"
    using assms by (simp add: occurs_at_take)
  then have "find_at q (drop k s) k = find_at q (drop (Suc k) s) (Suc k)"
    by (simp add: d)
  then show ?thesis using assms(1) by (simp add: indexOf_def min_def)
qed

lemma indexOf_past_end:
  assumes "length s \<le> k" and "q \<noteq> []"
  shows "indexOf s q k = None"
  using assms by (simp add: indexOf_def min_def)

lemma occurs_at_end: "occurs_at s q (length s) \<longleftrightarrow> q = []"
  by (auto simp: occurs_at_def)

lemma indexOf_first:
  assumes "k \<le> length s"
  shows "indexOf s q k = (case pos_from s q k of [] \<Rightarrow> None | i # _ \<Rightarrow> Some i)"
  using assms
proof (induction "length s - k" arbitrary: k)
  case 0
  then have k: "k = length s" by simp
  show ?case
  proof (cases "q = []")
    case True
    then have "occurs_at s q k" using k by (simp add: occurs_at_end)
    then show ?thesis
      using pos_from_step [of k s q] k by (simp add: indexOf_hit)
  next
    case False
    then have "\<not> occurs_at s q k" using k by (simp add: occurs_at_end)
    then show ?thesis
      using pos_from_step [of k s q] pos_from_end [of s "Suc k" q] k False
      by (simp add: indexOf_past_end)
  qed
next
  case (Suc n)
  then have lt: "k < length s" by simp
  show ?case
  proof (cases "occurs_at s q k")
    case True
    then show ?thesis
      using pos_from_step [of k s q] lt by (simp add: indexOf_hit)
  next
    case False
    have "indexOf s q (Suc k) = (case pos_from s q (Suc k) of [] \<Rightarrow> None | i # _ \<Rightarrow> Some i)"
      using Suc lt by (intro Suc.hyps(1)) simp_all
    then show ?thesis
      using False pos_from_step [of k s q] lt by (simp add: indexOf_miss)
  qed
qed

lemma str_includes_iff: "str_includes s q \<longleftrightarrow> occurrences s q \<noteq> []"
  using indexOf_first [of 0 s q]
  by (simp add: str_includes_def occurrences_def pos_from_def split: list.splits)

lemma scan_from:
  assumes "queryLower \<noteq> []" and "k \<le> length contentLower"
  shows "scan ctx text contentLower query queryLower (indexOf contentLower queryLower k) ms sc
         = Some (ms @ map (snippet ctx query text) (pos_from contentLower queryLower k),
                 sc + length (pos_from contentLower queryLower k))"
  using assms(2)
proof (induction "length contentLower - k" arbitrary: k ms sc)
  case 0
  then have k: "k = length contentLower" by simp
  have "\<not> occurs_at contentLower queryLower k"
    using k assms(1) by (simp add: occurs_at_end)
  then have "pos_from contentLower queryLower k = []"
    using pos_from_step [of k contentLower queryLower]
      pos_from_end [of contentLower "Suc k" queryLower] k by simp
  moreover have "indexOf contentLower queryLower k = None"
    using k assms(1) by (simp add: indexOf_past_end)
  ultimately show ?case
    by (simp add: scan.simps)
next
  case (Suc n)
  then have lt: "k < length contentLower" by simp
  have ih: "scan ctx text contentLower query queryLower
              (indexOf contentLower queryLower (Suc k)) ms' sc'
            = Some (ms' @ map (snippet ctx query text) (pos_from contentLower queryLower (Suc k)),
                    sc' + length (pos_from contentLower queryLower (Suc k)))" for ms' sc'
    using Suc lt by (intro Suc.hyps(1)) simp_all
  show ?case
  proof (cases "occurs_at contentLower queryLower k")
    case True
    have "scan ctx text contentLower query queryLower (Some k) ms sc
          = scan ctx text contentLower query queryLower
              (indexOf contentLower queryLower (Suc k))
              (ms @ [snippet ctx query text k]) (sc + 1)"
      by (subst scan.simps) (simp add: snippet_def)
    then show ?thesis
      using True pos_from_step [of k contentLower queryLower] lt
      by (simp add: indexOf_hit ih)
  next
    case False
    then show ?thesis
      using pos_from_step [of k contentLower queryLower] lt
      by (simp add: indexOf_miss ih)
  qed
qed

lemma scan_all:
  assumes "queryLower \<noteq> []"
  shows "scan ctx text contentLower query queryLower (indexOf contentLower queryLower 0) [] 0
         = Some (map (snippet ctx query text) (occurrences contentLower queryLower),
                 length (occurrences contentLower queryLower))"
  using scan_from [OF assms, of 0 contentLower _ _ _ "[]" 0]
  by (simp add: occurrences_def pos_from_def)

lemma indexOf_empty: "indexOf s [] k = Some (min k (length s))"
  by (cases "drop (min k (length s)) s") (simp_all add: indexOf_def)

lemma scan_returns_only_if:
  assumes "scan ctx text contentLower query queryLower index ms sc = Some y"
  shows "queryLower = [] \<longrightarrow> index = None"
proof (rule scan.raw_induct[where P = "\<lambda>c t cl q ql ix ms sc y. ql = [] \<longrightarrow> ix = None", OF _ assms])
  fix scan' :: "(string \<Rightarrow> nat \<Rightarrow> string) \<Rightarrow> string \<Rightarrow> string \<Rightarrow> string \<Rightarrow> string \<Rightarrow> nat option
     \<Rightarrow> search_match list \<Rightarrow> nat \<Rightarrow> (search_match list \<times> nat) option"
  fix c t cl q ql ix ms sc y
  assume ih: "\<And>c t cl q ql ix ms sc y.
       scan' c t cl q ql ix ms sc = Some y \<Longrightarrow> ql = [] \<longrightarrow> ix = None"
    and step: "(case ix of
          None \<Rightarrow> Some (ms, sc)
        | Some i \<Rightarrow>
            scan' c t cl q ql (indexOf cl ql (i + 1))
              (ms @ [\<lparr>contextText = c t i, startIndex = i, endIndex = i + length q\<rparr>])
              (sc + 1)) = Some y"
  show "ql = [] \<longrightarrow> ix = None"
  proof (cases ix)
    case None
    then show ?thesis by simp
  next
    case (Some i)
    then have "scan' c t cl q ql (indexOf cl ql (i + 1))
              (ms @ [\<lparr>contextText = c t i, startIndex = i, endIndex = i + length q\<rparr>])
              (sc + 1) = Some y"
      using step by simp
    then have "ql = [] \<longrightarrow> indexOf cl ql (i + 1) = None"
      by (rule ih)
    then show ?thesis by (auto simp: indexOf_empty)
  qed
qed

lemma scan_empty_query_diverges:
  "scan ctx text contentLower query [] (Some i) ms sc = None"
proof (cases "scan ctx text contentLower query [] (Some i) ms sc")
  case None
  then show ?thesis .
next
  case (Some y)
  then have "Some i = None"
    using scan_returns_only_if by blast
  then show ?thesis by simp
qed

lemma toLowerCase_nonempty: "query \<noteq> [] \<Longrightarrow> toLowerCase query \<noteq> []"
  by (simp add: toLowerCase_def)

lemma search_step_eq:
  assumes "query \<noteq> []"
  shows "search_step ctx query s =
           Some (if spec_score query s > 0 then [spec_result ctx query s] else [])"
proof -
  let ?ql = "toLowerCase query"
  let ?occ = "occurrences (toLowerCase (content s)) ?ql"
  have sc: "scan ctx (content s) (toLowerCase (content s)) query ?ql
              (indexOf (toLowerCase (content s)) ?ql 0) [] 0
            = Some (map (snippet ctx query (content s)) ?occ, length ?occ)"
    using toLowerCase_nonempty [OF assms] by (rule scan_all)
  show ?thesis
    unfolding search_step_def Let_def sc
    by (simp add: str_includes_iff spec_score_def spec_result_def slice_def)
qed

lemma search_loop_eq:
  assumes "query \<noteq> []"
  shows "search_loop ctx query ds results =
           Some (results @ map (spec_result ctx query) [s \<leftarrow> ds. spec_score query s > 0])"
proof (induction ds arbitrary: results)
  case Nil
  show ?case by simp
next
  case (Cons d ds)
  show ?case
    by (simp add: search_step_eq [OF assms] Cons.IH)
qed

lemma search_eq:
  assumes "query \<noteq> []"
  shows "search ctx stds query options limit =
           Some (slice_to (or_else limit 10) (sort_by_score (spec_scored ctx stds query options)))"
  by (simp add: search_def search_loop_eq [OF assms] spec_scored_def)

lemma sort_by_score_descending: "sorted_wrt (\<lambda>a b. score b \<le> score a) (sort_by_score rs)"
proof -
  have "sorted (map (\<lambda>r. - int (score r)) (sort_by_score rs))"
    unfolding sort_by_score_def by (rule sorted_sort_key)
  then show ?thesis by (simp add: sorted_map)
qed

lemma sort_by_score_stable:
  "[r \<leftarrow> sort_by_score rs. score r = k] = [r \<leftarrow> rs. score r = k]"
proof -
  have "[r \<leftarrow> sort_key (\<lambda>r. - int (score r)) rs. - int (score r) = - int k]
        = [r \<leftarrow> rs. - int (score r) = - int k]"
    by (rule sort_key_stable)
  then show ?thesis by (simp add: sort_by_score_def)
qed

lemma spec_scored_results:
  assumes "r \<in> set (spec_scored ctx stds query options)"
  shows "length (matches r) \<le> 3 \<and> 0 < score r \<and>
         standard r \<in> set (filter_standards stds options) \<and>
         score r = spec_score query (standard r)"
  using assms by (auto simp: spec_scored_def spec_result_def)

text \<open>
  Claim C5, as the code has it, for a non-empty query and a limit that is not negative
  (10 when omitted).  \<open>search\<close> returns; its result is the first \<open>limit\<close> entries of the
  ranking of the scored documents, where the scored documents are the filtered documents of
  positive score, each with its score (one per occurrence in the body, two flat for the
  metadata text, one flat for the path) and at most three snippets, in filter order; the
  ranking is in descending order of score; and for every score the documents of that score
  appear in the ranking in filter order.
\<close>

theorem search_ranking:
  assumes "query \<noteq> []" and "0 \<le> or_else limit 10"
  shows "search ctx stds query options limit =
           Some (take (nat (or_else limit 10))
                   (sort_by_score (spec_scored ctx stds query options))) \<and>
         sorted_wrt (\<lambda>a b. score b \<le> score a)
           (sort_by_score (spec_scored ctx stds query options)) \<and>
         (\<forall>k. [r \<leftarrow> sort_by_score (spec_scored ctx stds query options). score r = k]
              = [r \<leftarrow> spec_scored ctx stds query options. score r = k]) \<and>
         map standard (spec_scored ctx stds query options)
           = [s \<leftarrow> filter_standards stds options. 0 < spec_score query s] \<and>
         (\<forall>r \<in> set (spec_scored ctx stds query options).
            length (matches r) \<le> 3 \<and> score r = spec_score query (standard r))"
proof (intro conjI allI ballI)
  show "search ctx stds query options limit =
           Some (take (nat (or_else limit 10))
                   (sort_by_score (spec_scored ctx stds query options)))"
    using assms(2) by (simp add: search_eq [OF assms(1)] slice_to_def)
  show "sorted_wrt (\<lambda>a b. score b \<le> score a)
           (sort_by_score (spec_scored ctx stds query options))"
    by (rule sort_by_score_descending)
  show "[r \<leftarrow> sort_by_score (spec_scored ctx stds query options). score r = k]
              = [r \<leftarrow> spec_scored ctx stds query options. score r = k]" for k
    by (rule sort_by_score_stable)
  show "map standard (spec_scored ctx stds query options)
           = [s \<leftarrow> filter_standards stds options. 0 < spec_score query s]"
    by (simp add: spec_scored_def spec_result_def comp_def)
  show "length (matches r) \<le> 3" if "r \<in> set (spec_scored ctx stds query options)" for r
    using spec_scored_results [OF that] by simp
  show "score r = spec_score query (standard r)"
    if "r \<in> set (spec_scored ctx stds query options)" for r
    using spec_scored_results [OF that] by simp
qed

lemma card_occurrences: "card {i. occurs_at s q i} = length (occurrences s q)"
proof -
  have "i \<in> set [0..<Suc (length s)]" if "occurs_at s q i" for i
  proof -
    have "i \<le> length s" using that by (simp add: occurs_at_take)
    then show ?thesis by auto
  qed
  then have "set (occurrences s q) = {i. occurs_at s q i}"
    unfolding occurrences_def by auto
  moreover have "distinct (occurrences s q)"
    by (simp add: occurrences_def)
  ultimately show ?thesis
    by (metis distinct_card)
qed

text \<open>
  Claim C9, for a non-empty query.  The scan of the body returns, and the score it adds is
  the number of positions at which the lowercased query occurs in the lowercased body,
  overlapping occurrences included; it pushes one match for each of them.
\<close>

theorem scan_counts_every_position:
  assumes "query \<noteq> []"
  shows "\<exists>ms. scan ctx (content s) (toLowerCase (content s)) query (toLowerCase query)
                (indexOf (toLowerCase (content s)) (toLowerCase query) 0) [] 0
              = Some (ms, card {i. occurs_at (toLowerCase (content s)) (toLowerCase query) i}) \<and>
              map startIndex ms = occurrences (toLowerCase (content s)) (toLowerCase query)"
proof -
  have "map startIndex (map (snippet ctx query (content s)) xs) = xs" for xs
    by (induction xs) (simp_all add: snippet_def)
  then show ?thesis
    using scan_all [OF toLowerCase_nonempty [OF assms]]
    by (simp add: card_occurrences)
qed

lemma score_body_only: "spec_score ''spring'' (sample_standard ''a.md'' [''api''] ''Spring'') = 1"
  by (simp add: spec_score_def occurrences_def occurs_at_def metadataText_def
        sample_standard_def sample_metadata_def toLowerCase_def lower_char_def)

lemma score_body_and_tag:
  "spec_score ''spring'' (sample_standard ''b.md'' [''spring-boot''] ''spring'') = 3"
  by (simp add: spec_score_def occurrences_def occurs_at_def metadataText_def
        sample_standard_def sample_metadata_def toLowerCase_def lower_char_def)

lemma no_options_pass: "filter_standards stds no_options = stds"
  by (simp add: filter_standards_def filter_callback_def truthy_def no_options_def)

lemma ranking_two_documents:
  "sort_by_score (spec_scored no_context
       [sample_standard ''a.md'' [''api''] ''Spring'',
        sample_standard ''b.md'' [''spring-boot''] ''spring''] ''spring'' no_options)
   = [\<lparr>standard = sample_standard ''b.md'' [''spring-boot''] ''spring'',
        matches = [\<lparr>contextText = [], startIndex = 0, endIndex = 6\<rparr>], score = 3\<rparr>,
      \<lparr>standard = sample_standard ''a.md'' [''api''] ''Spring'',
        matches = [\<lparr>contextText = [], startIndex = 0, endIndex = 6\<rparr>], score = 1\<rparr>]"
proof -
  have a: "occurrences (toLowerCase ''Spring'') (toLowerCase ''spring'') = [0]"
    and b: "occurrences (toLowerCase ''spring'') (toLowerCase ''spring'') = [0]"
    by (simp_all add: occurrences_def occurs_at_def toLowerCase_def lower_char_def)
  show ?thesis
    by (simp add: spec_scored_def no_options_pass score_body_only score_body_and_tag
          spec_result_def sample_standard_fields a b snippet_def no_context_def
          sort_by_score_def)
qed

theorem search_ranking_witness:
  "search no_context
     [sample_standard ''a.md'' [''api''] ''Spring'',
      sample_standard ''b.md'' [''spring-boot''] ''spring''] ''spring'' no_options (Some 1)
   = Some [\<lparr>standard = sample_standard ''b.md'' [''spring-boot''] ''spring'',
             matches = [\<lparr>contextText = [], startIndex = 0, endIndex = 6\<rparr>], score = 3\<rparr>]"
  using search_ranking [of "''spring''" "Some 1" no_context
          "[sample_standard ''a.md'' [''api''] ''Spring'',
            sample_standard ''b.md'' [''spring-boot''] ''spring'']" no_options,
          THEN conjunct1]
  by (simp add: or_else_def ranking_two_documents)

text \<open>
  The claim as stated fails for the empty query, on which the scan of the first filtered
  document never ends (\<open>indexOf('', i + 1)\<close> stays at the length of the body), and for a
  negative limit, which \<open>slice\<close> counts from the end: limit \<open>-1\<close> returns one of the two
  results.
\<close>

theorem search_empty_query_counterexample:
  "search no_context [sample_standard ''a.md'' [''api''] ''Spring''] [] no_options None = None \<and>
   search no_context
     [sample_standard ''a.md'' [''api''] ''Spring'',
      sample_standard ''b.md'' [''spring-boot''] ''spring''] ''spring'' no_options (Some (- 1))
   = Some [\<lparr>standard = sample_standard ''b.md'' [''spring-boot''] ''spring'',
             matches = [\<lparr>contextText = [], startIndex = 0, endIndex = 6\<rparr>], score = 3\<rparr>]"
proof
  have "search_step no_context [] (sample_standard ''a.md'' [''api''] ''Spring'') = None"
    by (simp add: search_step_def toLowerCase_def indexOf_empty scan_empty_query_diverges)
  then show "search no_context [sample_standard ''a.md'' [''api''] ''Spring''] [] no_options None
      = None"
    by (simp add: search_def no_options_pass)
next
  have "''spring'' \<noteq> []" by simp
  then show "search no_context
     [sample_standard ''a.md'' [''api''] ''Spring'',
      sample_standard ''b.md'' [''spring-boot''] ''spring''] ''spring'' no_options (Some (- 1))
   = Some [\<lparr>standard = sample_standard ''b.md'' [''spring-boot''] ''spring'',
             matches = [\<lparr>contextText = [], startIndex = 0, endIndex = 6\<rparr>], score = 3\<rparr>]"
    by (simp add: search_eq or_else_def ranking_two_documents slice_to_def)
qed

theorem scan_counts_every_position_witness:
  "\<exists>ms. scan no_context ''aaa'' ''aaa'' ''aa'' ''aa'' (indexOf ''aaa'' ''aa'' 0) [] 0 = Some (ms, 2)"
proof -
  have "occurrences ''aaa'' ''aa'' = [0, 1]"
    by (simp add: occurrences_def occurs_at_def)
  then have "card {i. occurs_at ''aaa'' ''aa'' i} = 2"
    by (simp add: card_occurrences)
  moreover have "toLowerCase ''aaa'' = ''aaa''" and "toLowerCase ''aa'' = ''aa''"
    by (simp_all add: toLowerCase_def lower_char_def)
  ultimately show ?thesis
    using scan_counts_every_position [of "''aa''" no_context "sample_standard ''a.md'' [] ''aaa''"]
    by (auto simp: sample_standard_fields)
qed

text \<open>
  The claim as stated fails for the empty query: the scan never returns, so there is no
  body contribution.
\<close>

theorem scan_empty_query_counterexample:
  "scan no_context ''aaa'' ''aaa'' [] [] (indexOf ''aaa'' [] 0) [] 0 = None"
  by (simp add: indexOf_empty scan_empty_query_diverges)

section \<open>Kebab case\<close>

lemma alnum_chars:
  "list_all (\<lambda>c. c \<noteq> CHR ''-'' \<and> lower_char c = c \<and> c \<noteq> CHR ''/'' \<and> c \<noteq> CHR 0x5C)
     ''abcdefghijklmnopqrstuvwxyz0123456789''"
  by (simp add: lower_char_def)

lemma is_alnum_facts:
  assumes "is_alnum c"
  shows "c \<noteq> CHR ''-''" and "lower_char c = c" and "c \<noteq> CHR ''/''" and "\<not> is_sep c"
proof -
  have "c \<noteq> CHR ''-'' \<and> lower_char c = c \<and> c \<noteq> CHR ''/'' \<and> c \<noteq> CHR 0x5C"
    using assms alnum_chars unfolding is_alnum_def list_all_iff by blast
  then show "c \<noteq> CHR ''-''" and "lower_char c = c" and "c \<noteq> CHR ''/''" and "\<not> is_sep c"
    by (simp_all add: is_sep_def)
qed

lemma hyphen_not_alnum: "\<not> is_alnum (CHR ''-'')"
  by (simp add: is_alnum_def)

lemma lower_hyphen: "lower_char (CHR ''-'') = CHR ''-''"
  by (simp add: lower_char_def)

lemma hyphenated_Nil: "hyphenated []"
  by (simp add: hyphenated_def)

lemma hyphenated_Cons:
  "hyphenated (c # cs) \<longleftrightarrow>
     (is_alnum c \<or> c = CHR ''-'') \<and> hyphenated cs \<and> (cs = [] \<or> no_double_hyphen c (hd cs))"
  by (auto simp: hyphenated_def successively_Cons)

lemma hyphenated_append:
  "hyphenated (xs @ ys) \<longleftrightarrow>
     hyphenated xs \<and> hyphenated ys \<and> (xs = [] \<or> ys = [] \<or> no_double_hyphen (last xs) (hd ys))"
  by (auto simp: hyphenated_def successively_append_iff)

lemma hyphenated_lower: "hyphenated s \<Longrightarrow> toLowerCase s = s"
proof (induction s)
  case Nil
  show ?case by (simp add: toLowerCase_def)
next
  case (Cons c cs)
  then have "toLowerCase cs = cs" and "lower_char c = c"
    using is_alnum_facts(2) lower_hyphen by (auto simp: hyphenated_Cons)
  then show ?case by (simp add: toLowerCase_def)
qed

lemma hyphenated_no_sep:
  assumes "hyphenated s" and "c \<in> set s"
  shows "\<not> is_sep c" and "c \<noteq> CHR ''/''"
proof -
  have "is_alnum c \<or> c = CHR ''-''"
    using assms by (simp add: hyphenated_def list_all_iff)
  then show "\<not> is_sep c" and "c \<noteq> CHR ''/''"
    using is_alnum_facts(3,4) [of c] by (auto simp: is_sep_def)
qed


lemma dropWhile_head: "xs \<noteq> [] \<Longrightarrow> \<not> P (hd xs) \<Longrightarrow> dropWhile P xs = xs"
  by (cases xs) simp_all

lemma replace_runs_hyphenated: "hyphenated (replace_runs (\<lambda>c. \<not> is_alnum c) s)"
proof (induction "length s" arbitrary: s rule: less_induct)
  case less
  show ?case
  proof (cases s)
    case Nil
    then show ?thesis by (simp add: hyphenated_Nil)
  next
    case (Cons c cs)
    show ?thesis
    proof (cases "is_alnum c")
      case True
      have "hyphenated (replace_runs (\<lambda>c. \<not> is_alnum c) cs)"
        using less Cons by simp
      then show ?thesis
        using True Cons is_alnum_facts(1) [OF True]
        by (simp add: hyphenated_Cons no_double_hyphen_def)
    next
      case False
      let ?d = "dropWhile (\<lambda>c. \<not> is_alnum c) cs"
      have "length ?d \<le> length cs" by (rule length_dropWhile_le)
      then have ih: "hyphenated (replace_runs (\<lambda>c. \<not> is_alnum c) ?d)"
        using less Cons by simp
      have "replace_runs (\<lambda>c. \<not> is_alnum c) ?d = [] \<or>
            hd (replace_runs (\<lambda>c. \<not> is_alnum c) ?d) \<noteq> CHR ''-''"
      proof (cases ?d)
        case Nil
        show ?thesis unfolding Nil by simp
      next
        case (Cons x xs)
        then have "is_alnum x"
          using hd_dropWhile [of "\<lambda>c. \<not> is_alnum c" cs] by simp
        then show ?thesis
          using Cons is_alnum_facts(1) by simp
      qed
      then show ?thesis
        using False Cons ih by (auto simp: hyphenated_Cons no_double_hyphen_def)
    qed
  qed
qed

lemma collapse_hyphens_fixed:
  "successively no_double_hyphen s \<Longrightarrow> replace_runs (\<lambda>c. c = CHR ''-'') s = s"
proof (induction s)
  case Nil
  show ?case by simp
next
  case (Cons c cs)
  from Cons.prems have rest: "successively no_double_hyphen cs"
    by (auto simp: successively_Cons)
  show ?case
  proof (cases "c = CHR ''-''")
    case False
    then show ?thesis using Cons.IH rest by simp
  next
    case True
    show ?thesis
    proof (cases "cs = []")
      case True
      with \<open>c = CHR ''-''\<close> show ?thesis by simp
    next
      case False
      then have "hd cs \<noteq> CHR ''-''"
        using Cons.prems True by (auto simp: successively_Cons no_double_hyphen_def)
      then have "dropWhile (\<lambda>c. c = CHR ''-'') cs = cs"
        using False by (simp add: dropWhile_head)
      then show ?thesis using True Cons.IH rest by simp
    qed
  qed
qed

lemma replace_non_alnum_fixed:
  "hyphenated s \<Longrightarrow> s = [] \<or> last s \<noteq> CHR ''-'' \<Longrightarrow>
   replace_runs (\<lambda>c. \<not> is_alnum c) s = s"
proof (induction s)
  case Nil
  show ?case by simp
next
  case (Cons c cs)
  from Cons.prems(1) have head: "is_alnum c \<or> c = CHR ''-''" and rest: "hyphenated cs"
    and adj: "cs = [] \<or> no_double_hyphen c (hd cs)"
    by (simp_all add: hyphenated_Cons)
  from Cons.prems(2) have last_ok: "cs = [] \<or> last cs \<noteq> CHR ''-''"
    by auto
  have ih: "replace_runs (\<lambda>c. \<not> is_alnum c) cs = cs"
    using Cons.IH rest last_ok by simp
  show ?case
  proof (cases "is_alnum c")
    case True
    then show ?thesis using ih by simp
  next
    case False
    then have c: "c = CHR ''-''" using head by simp
    then have ne: "cs \<noteq> []" using Cons.prems(2) by auto
    then have "hd cs \<noteq> CHR ''-''"
      using adj c by (simp add: no_double_hyphen_def)
    moreover have "is_alnum (hd cs) \<or> hd cs = CHR ''-''"
      using rest ne by (cases cs) (simp_all add: hyphenated_Cons)
    ultimately have "is_alnum (hd cs)" by simp
    then have "dropWhile (\<lambda>c. \<not> is_alnum c) cs = cs"
      using ne by (simp add: dropWhile_head)
    then show ?thesis using False c ih by simp
  qed
qed

lemma trim_hyphen_fixed:
  "s \<noteq> [] \<Longrightarrow> hd s \<noteq> CHR ''-'' \<Longrightarrow> last s \<noteq> CHR ''-'' \<Longrightarrow> trim_hyphen s = s"
  by (cases s) (simp_all add: trim_hyphen_def)

lemma trim_hyphen_kebab_form:
  assumes "hyphenated s" and "trim_hyphen s \<noteq> []"
  shows "kebab_form (trim_hyphen s)"
proof -
  define s1 where "s1 = (case s of [] \<Rightarrow> [] | c # r \<Rightarrow> if c = CHR ''-'' then r else s)"
  have t: "trim_hyphen s = (if s1 \<noteq> [] \<and> last s1 = CHR ''-'' then butlast s1 else s1)"
    by (simp add: trim_hyphen_def s1_def)
  have h1: "hyphenated s1"
    using assms(1) by (cases s) (auto simp: s1_def hyphenated_Cons)
  have hd1: "s1 \<noteq> [] \<longrightarrow> hd s1 \<noteq> CHR ''-''"
    using assms(1) by (cases s) (auto simp: s1_def hyphenated_Cons no_double_hyphen_def)
  show ?thesis
  proof (cases "s1 \<noteq> [] \<and> last s1 = CHR ''-''")
    case False
    then have "trim_hyphen s = s1" using t by auto
    then show ?thesis
      using assms(2) False h1 hd1 by (auto simp: kebab_form_def)
  next
    case True
    then have z: "trim_hyphen s = butlast s1" using t by simp
    then have ne: "butlast s1 \<noteq> []" using assms(2) by simp
    have split: "s1 = butlast s1 @ [CHR ''-'']"
      using True by (metis append_butlast_last_id)
    then have "hyphenated (butlast s1 @ [CHR ''-''])"
      using h1 by simp
    then have hb: "hyphenated (butlast s1)" and "no_double_hyphen (last (butlast s1)) (CHR ''-'')"
      using ne by (simp_all add: hyphenated_append)
    then have lb: "last (butlast s1) \<noteq> CHR ''-''"
      by (simp add: no_double_hyphen_def)
    have "hd (butlast s1 @ [CHR ''-'']) = hd (butlast s1)"
      using ne by simp
    then have "hd (butlast s1) = hd s1"
      using split by simp
    then have "hd (butlast s1) \<noteq> CHR ''-''"
      using hd1 True by simp
    then show ?thesis
      using z ne hb lb by (simp add: kebab_form_def)
  qed
qed

lemma kebab_is_kebab_form:
  assumes "kebab x \<noteq> []"
  shows "kebab_form (kebab x)"
proof -
  let ?y = "replace_runs (\<lambda>c. \<not> is_alnum c) (toLowerCase x)"
  have hy: "hyphenated ?y" by (rule replace_runs_hyphenated)
  then have "replace_runs (\<lambda>c. c = CHR ''-'') ?y = ?y"
    by (simp add: collapse_hyphens_fixed hyphenated_def)
  then have k: "kebab x = trim_hyphen ?y"
    by (simp add: kebab_def)
  show ?thesis
    using assms trim_hyphen_kebab_form [OF hy] unfolding k by simp
qed

lemma kebab_fixed:
  assumes "kebab_form s"
  shows "kebab s = s"
proof -
  have h: "hyphenated s" and ne: "s \<noteq> []" and "hd s \<noteq> CHR ''-''" and l: "last s \<noteq> CHR ''-''"
    using assms by (simp_all add: kebab_form_def)
  then show ?thesis
    by (simp add: kebab_def hyphenated_lower replace_non_alnum_fixed collapse_hyphens_fixed
          hyphenated_def [of s, THEN iffD1] trim_hyphen_fixed)
qed

lemma kebab_form_join:
  "kebab_form (a @ CHR ''-'' # b) \<longleftrightarrow> kebab_form a \<and> kebab_form b"
proof (cases "a = [] \<or> b = []")
  case True
  then show ?thesis by (auto simp: kebab_form_def)
next
  case False
  then have a: "a \<noteq> []" and b: "b \<noteq> []" by simp_all
  have "hyphenated (a @ CHR ''-'' # b) \<longleftrightarrow>
          hyphenated a \<and> hyphenated b \<and> last a \<noteq> CHR ''-'' \<and> hd b \<noteq> CHR ''-''"
    using a b by (auto simp: hyphenated_append hyphenated_Cons no_double_hyphen_def)
  then show ?thesis
    using a b by (auto simp: kebab_form_def)
qed

section \<open>File-name derivation on non-empty slugs\<close>

lemma enum_values_kebab:
  "list_all kebab_form
     [''principle'', ''standard'', ''practice'', ''tech-stack'', ''process'',
      ''frontend'', ''backend'', ''database'', ''infrastructure'', ''security'',
      ''development'', ''testing'', ''delivery'', ''operations'',
      ''active'', ''draft'', ''deprecated'']"
  by (simp add: kebab_form_def hyphenated_def is_alnum_def no_double_hyphen_def)

lemma valid_fields_kebab:
  assumes "valid_metadata md"
  shows "kebab_form (type md)" and "kebab_form (tier md)"
    and "kebab_form (process md)" and "kebab_form (status md)"
proof -
  have k: "kebab_form x"
    if "x \<in> set [''principle'', ''standard'', ''practice'', ''tech-stack'', ''process'',
      ''frontend'', ''backend'', ''database'', ''infrastructure'', ''security'',
      ''development'', ''testing'', ''delivery'', ''operations'',
      ''active'', ''draft'', ''deprecated'']" for x
    using enum_values_kebab that unfolding list_all_iff by blast
  show "kebab_form (type md)"
    using valid_metadataD(1) [OF assms] by (intro k) auto
  show "kebab_form (tier md)"
    using valid_metadataD(2) [OF assms] by (intro k) auto
  show "kebab_form (process md)"
    using valid_metadataD(3) [OF assms] by (intro k) auto
  show "kebab_form (status md)"
    using valid_metadataD(4) [OF assms] by (intro k) auto
qed

lemma kebab_form_lower: "kebab_form s \<Longrightarrow> toLowerCase s = s"
  by (simp add: kebab_form_def hyphenated_lower)

lemma valid_prefix:
  assumes "valid_metadata md"
  shows "join ''-'' (map toLowerCase (filter (\<lambda>p. p \<noteq> []) [type md, tier md, process md])) @ ''-''
           = name_prefix md"
    and "''-'' @ toLowerCase (status md) = name_suffix md"
    and "kebab_form (type md @ ''-'' @ tier md @ ''-'' @ process md)"
proof -
  note k = valid_fields_kebab [OF assms]
  have ne: "type md \<noteq> []" "tier md \<noteq> []" "process md \<noteq> []"
    using k by (auto simp: kebab_form_def)
  have l: "toLowerCase (type md) = type md" "toLowerCase (tier md) = tier md"
    "toLowerCase (process md) = process md" "toLowerCase (status md) = status md"
    using k by (simp_all add: kebab_form_lower)
  show "join ''-'' (map toLowerCase (filter (\<lambda>p. p \<noteq> []) [type md, tier md, process md])) @ ''-''
           = name_prefix md"
    using ne by (simp add: l name_prefix_def)
  show "''-'' @ toLowerCase (status md) = name_suffix md"
    by (simp add: l name_suffix_def)
  have "kebab_form (tier md @ CHR ''-'' # process md)"
    using k(2,3) kebab_form_join by blast
  then have "kebab_form (type md @ CHR ''-'' # (tier md @ CHR ''-'' # process md))"
    using k(1) kebab_form_join by blast
  then show "kebab_form (type md @ ''-'' @ tier md @ ''-'' @ process md)"
    by simp
qed

lemma sanitize_shape: "\<exists>b. sanitizeFilename f = kebab b @ ''.md''"
  unfolding sanitizeFilename_def Let_def MARKDOWN_EXTENSION_def by blast

text \<open>The derivation in terms of the sanitized slug \<open>kb\<close>.\<close>

lemma generateFilePath_canonical:
  assumes "valid_metadata md" and "f \<noteq> []"
    and "sanitizeFilename f = kb @ ''.md''" and "kebab_form kb"
  shows "generateFilePath md (Some f) =
           name_prefix md @
           (let g1 = (if startsWith kb (name_prefix md)
                      then drop (length (name_prefix md)) kb else kb)
            in if endsWith g1 (name_suffix md)
               then take (length g1 - length (name_suffix md)) g1 else g1)
           @ name_suffix md @ ''.md''"
proof -
  have t: "truthy (Some f)"
    using assms(2) by (simp add: truthy_def)
  have e: "endsWith (kb @ ''.md'') ''.md''"
    by (simp add: endsWith_def)
  have tk: "take (length (kb @ ''.md'') - length ''.md'') (kb @ ''.md'') = kb"
    by simp
  have lk: "toLowerCase kb = kb"
    by (rule kebab_form_lower [OF assms(4)])
  show ?thesis
    unfolding generateFilePath_def Let_def
    by (simp only: MARKDOWN_EXTENSION_def t if_True option.sel assms(3) e tk lk
          valid_prefix(1,2) [OF assms(1)])
qed

lemma strip_affixes_kebab:
  assumes "valid_metadata md" and "kebab_form kb"
  shows "kebab_form
           (let g1 = (if startsWith kb (name_prefix md)
                      then drop (length (name_prefix md)) kb else kb)
            in if endsWith g1 (name_suffix md)
               then take (length g1 - length (name_suffix md)) g1 else g1)"
proof -
  define g1 where "g1 = (if startsWith kb (name_prefix md)
                         then drop (length (name_prefix md)) kb else kb)"
  have g1: "kebab_form g1"
  proof (cases "startsWith kb (name_prefix md)")
    case False
    then show ?thesis using assms(2) by (simp add: g1_def)
  next
    case True
    then have "kb = name_prefix md @ g1"
      by (metis append_take_drop_id startsWith_def g1_def)
    then have "kb = (type md @ ''-'' @ tier md @ ''-'' @ process md) @ CHR ''-'' # g1"
      by (simp add: name_prefix_def)
    then show ?thesis
      using assms(2) kebab_form_join by metis
  qed
  have "kebab_form (if endsWith g1 (name_suffix md)
                    then take (length g1 - length (name_suffix md)) g1 else g1)"
  proof (cases "endsWith g1 (name_suffix md)")
    case False
    then show ?thesis using g1 by simp
  next
    case True
    then have "g1 = take (length g1 - length (name_suffix md)) g1 @ name_suffix md"
      by (metis append_take_drop_id endsWith_def)
    then have "g1 = take (length g1 - length (name_suffix md)) g1 @ CHR ''-'' # status md"
      by (simp add: name_suffix_def)
    then have "kebab_form (take (length g1 - length (name_suffix md)) g1)"
      using g1 kebab_form_join by metis
    then show ?thesis using True by simp
  qed
  then show ?thesis unfolding g1_def Let_def .
qed

lemma path_basename_flat:
  assumes "CHR ''/'' \<notin> set p"
  shows "path_basename p = p"
proof -
  have "dropWhile (\<lambda>c. c = CHR ''/'') (rev p) = rev p"
    using assms by (cases "rev p") (auto simp: dropWhile_head)
  moreover have "takeWhile (\<lambda>c. c \<noteq> CHR ''/'') (rev p) = rev p"
    using assms by (auto simp: takeWhile_eq_all_conv)
  ultimately show ?thesis by (simp only: path_basename_def rev_rev_ident)
qed

text \<open>A canonical name with a kebab-case slug is sanitized to itself.\<close>

lemma sanitize_canonical:
  assumes "valid_metadata md" and "kebab_form g"
  shows "sanitizeFilename (name_prefix md @ g @ name_suffix md @ ''.md'')
           = (name_prefix md @ g @ name_suffix md) @ ''.md''"
    and "kebab_form (name_prefix md @ g @ name_suffix md)"
proof -
  let ?N = "name_prefix md @ g @ name_suffix md"
  let ?P0 = "type md @ ''-'' @ tier md @ ''-'' @ process md"
  have "kebab_form (g @ CHR ''-'' # status md)"
    using assms(2) valid_fields_kebab(4) [OF assms(1)] kebab_form_join by blast
  then have "kebab_form (?P0 @ CHR ''-'' # (g @ CHR ''-'' # status md))"
    using valid_prefix(3) [OF assms(1)] kebab_form_join by blast
  then show N: "kebab_form ?N"
    by (simp add: name_prefix_def name_suffix_def)
  have "?N @ ''.md'' = type md @ ''-'' @ (tier md @ ''-'' @ process md @ ''-'' @ g @ name_suffix md @ ''.md'')"
    by (simp add: name_prefix_def)
  then have "match_store_prefix (?N @ ''.md'') = None"
    using typed_name_not_prefixed [OF valid_metadataD(1) [OF assms(1)]] by metis
  then have 1: "strip_store_prefix (?N @ ''.md'') = ?N @ ''.md''"
    by (simp add: strip_store_prefix_def)
  have "CHR ''/'' \<notin> set ?N"
    using hyphenated_no_sep(2) [of ?N] N by (auto simp: kebab_form_def)
  then have "CHR ''/'' \<notin> set (?N @ ''.md'')"
    by simp
  then have 2: "path_basename (?N @ ''.md'') = ?N @ ''.md''"
    by (rule path_basename_flat)
  have "toLowerCase (?N @ ''.md'') = ?N @ ''.md''"
    using kebab_form_lower [OF N] by (simp add: toLowerCase_def lower_char_def)
  then have 3: "endsWith (toLowerCase (?N @ ''.md'')) ''.md''"
    by (simp add: endsWith_def)
  have "sanitizeFilename (?N @ ''.md'') = kebab ?N @ ''.md''"
    using 1 2 3 by (simp add: sanitizeFilename_def MARKDOWN_EXTENSION_def Let_def)
  then show "sanitizeFilename (name_prefix md @ g @ name_suffix md @ ''.md'') = ?N @ ''.md''"
    using kebab_fixed [OF N] by simp
qed

lemma canonical_name_fixed:
  assumes "valid_metadata md" and "kebab_form g"
  shows "generateFilePath md (Some (name_prefix md @ g @ name_suffix md @ ''.md''))
           = name_prefix md @ g @ name_suffix md @ ''.md''"
proof -
  let ?N = "name_prefix md @ g @ name_suffix md"
  have ne: "name_prefix md @ g @ name_suffix md @ ''.md'' \<noteq> []"
    by simp
  have s: "startsWith ?N (name_prefix md)"
    by (simp add: startsWith_def)
  have e: "endsWith (g @ name_suffix md) (name_suffix md)"
    by (simp add: endsWith_def)
  show ?thesis
    using generateFilePath_canonical [OF assms(1) ne sanitize_canonical(1) [OF assms]
        sanitize_canonical(2) [OF assms]] s e
    by (simp add: Let_def)
qed

text \<open>
  Where the derivation is idempotent: for valid metadata and a slug whose sanitized form
  is not empty, feeding the derived name back in as the slug gives the same name.
\<close>

lemma generateFilePath_idempotent:
  assumes "valid_metadata md" and "slug \<noteq> []" and "sanitizeFilename slug \<noteq> MARKDOWN_EXTENSION"
  shows "generateFilePath md (Some (generateFilePath md (Some slug)))
           = generateFilePath md (Some slug)"
proof -
  obtain b where b: "sanitizeFilename slug = kebab b @ ''.md''"
    using sanitize_shape by blast
  then have "kebab b \<noteq> []"
    using assms(3) by (auto simp: MARKDOWN_EXTENSION_def)
  then have kf: "kebab_form (kebab b)"
    by (rule kebab_is_kebab_form)
  define g where "g = (let g1 = (if startsWith (kebab b) (name_prefix md)
                      then drop (length (name_prefix md)) (kebab b) else kebab b)
            in if endsWith g1 (name_suffix md)
               then take (length g1 - length (name_suffix md)) g1 else g1)"
  have name: "generateFilePath md (Some slug) = name_prefix md @ g @ name_suffix md @ ''.md''"
    unfolding g_def by (rule generateFilePath_canonical [OF assms(1,2) b kf])
  have "kebab_form g"
    unfolding g_def by (rule strip_affixes_kebab [OF assms(1) kf])
  then show ?thesis
    unfolding name by (rule canonical_name_fixed [OF assms(1)])
qed

end
